theory Spec2Isabelle
  imports Complex_Main
begin

section \<open>Python values used by both tools\<close>

text \<open>
  A Python \<open>str\<close> is a sequence of code points. The model reads a HOL \<open>char\<close> as one code
  point in the range U+0000 .. U+00FF, so a \<open>string\<close> is a Python string over that range and
  \<open>length\<close> counts code points. The character classes below are those of CPython for
  this range. For frame rates and seconds a Python float is read as the real number it
  denotes: rounding and values that are not finite are not modelled there. The speed ratio
  of the concatenator, which can be infinite, has the type \<open>pyfloat\<close> below.
\<close>

datatype py_error = IndexError | ValueError | TypeError

definition code :: "char \<Rightarrow> nat" where
  "code c = of_char c"

text \<open>The class \<open>\d\<close> of the \<open>re\<close> module (Unicode category Nd): below U+0100 only \<open>0\<close>..\<open>9\<close>.\<close>

definition is_decimal :: "char \<Rightarrow> bool" where
  "is_decimal c = (48 \<le> code c \<and> code c \<le> 57)"

text \<open>
  The characters \<open>str.isdigit\<close> accepts (Numeric_Type Digit or Decimal): the decimal digits and
  the superscript digits U+00B2, U+00B3 and U+00B9.
\<close>

definition is_digit_char :: "char \<Rightarrow> bool" where
  "is_digit_char c = (is_decimal c \<or> code c = 178 \<or> code c = 179 \<or> code c = 185)"

text \<open>\<open>str.isdigit()\<close>: at least one character, and all of them digits.\<close>

definition isdigit :: "string \<Rightarrow> bool" where
  "isdigit tok = (tok \<noteq> [] \<and> list_all is_digit_char tok)"

text \<open>The characters \<open>str.isspace\<close> accepts; \<open>strip()\<close> and \<open>int()\<close> remove them at both ends.\<close>

definition is_space :: "char \<Rightarrow> bool" where
  "is_space c = ((9 \<le> code c \<and> code c \<le> 13) \<or> (28 \<le> code c \<and> code c \<le> 32)
                 \<or> code c = 133 \<or> code c = 160)"

definition strip :: "string \<Rightarrow> string" where
  "strip s = rev (dropWhile is_space (rev (dropWhile is_space s)))"

text \<open>
  \<open>str.lower()\<close>: \<open>A\<close>..\<open>Z\<close> and the capital letters U+00C0 .. U+00DE (but not the
  multiplication sign U+00D7) move up by 32; every other character stays.
\<close>

definition is_upper :: "char \<Rightarrow> bool" where
  "is_upper c = ((65 \<le> code c \<and> code c \<le> 90) \<or> (192 \<le> code c \<and> code c \<le> 222 \<and> code c \<noteq> 215))"

definition lower_char :: "char \<Rightarrow> char" where
  "lower_char c = (if is_upper c then char_of (code c + 32) else c)"

definition lower :: "string \<Rightarrow> string" where
  "lower s = map lower_char s"

text \<open>
  \<open>int(s)\<close> for a string: surrounding whitespace is dropped, one sign is allowed, then
  decimal digits, where a single underscore may stand between two digits. Anything else
  raises ValueError (\<open>None\<close> here). The interpreter's limit on the number of digits
  (4300 by default in recent versions) is not modelled.
\<close>

definition digit_value :: "char \<Rightarrow> int" where
  "digit_value c = int (code c) - 48"

fun int_digits :: "int \<Rightarrow> string \<Rightarrow> int option" where
  "int_digits acc [] = Some acc"
| "int_digits acc [c] = (if is_decimal c then Some (10 * acc + digit_value c) else None)"
| "int_digits acc (c # d # ds) =
     (if is_decimal c then int_digits (10 * acc + digit_value c) (d # ds)
      else if c = CHR ''_'' \<and> is_decimal d then int_digits (10 * acc + digit_value d) ds
      else None)"

definition int_unsigned :: "string \<Rightarrow> int option" where
  "int_unsigned s = (case s of [] \<Rightarrow> None
                     | c # cs \<Rightarrow> if is_decimal c then int_digits (digit_value c) cs else None)"

definition py_int :: "string \<Rightarrow> int option" where
  "py_int s = (case strip s of
                 [] \<Rightarrow> None
               | c # cs \<Rightarrow> if c = CHR ''-'' then map_option uminus (int_unsigned cs)
                           else if c = CHR ''+'' then int_unsigned cs
                           else int_unsigned (c # cs))"

section \<open>Natural sort keys (both tools define the same function)\<close>

text \<open>
  \<open>re.split(r'(\d+)', text)\<close>: the text is cut at every maximal run of \<open>\d\<close> characters and
  the runs are kept, so the result is \<open>[s0, d1, s1, ..., dn, sn]\<close> with the \<open>d\<close>s the runs
  and the \<open>s\<close>s the text between them (empty at either end when the text starts or ends
  with a run).
\<close>

function re_split_digits :: "string \<Rightarrow> string list" where
  "re_split_digits text =
     (let s = takeWhile (\<lambda>c. \<not> is_decimal c) text;
          rest = dropWhile (\<lambda>c. \<not> is_decimal c) text
      in if rest = [] then [s]
         else s # takeWhile is_decimal rest # re_split_digits (dropWhile is_decimal rest))"
  by pat_completeness auto
termination
proof (relation "measure length")
  show "wf (measure length)" by simp
next
  fix inp :: string and rest
  assume r: "rest = dropWhile (\<lambda>c. \<not> is_decimal c) inp" and ne: "rest \<noteq> []"
  from ne have "is_decimal (hd rest)"
    unfolding r using hd_dropWhile [of "\<lambda>c. \<not> is_decimal c" inp] by simp
  with ne have "dropWhile is_decimal rest = dropWhile is_decimal (tl rest)"
    by (cases rest) simp_all
  then have "length (dropWhile is_decimal rest) \<le> length (tl rest)"
    by (simp only: length_dropWhile_le)
  also have "\<dots> < length rest" using ne by (cases rest) simp_all
  also have "\<dots> \<le> length inp" unfolding r by (rule length_dropWhile_le)
  finally show "(dropWhile is_decimal rest, inp) \<in> measure length" by simp
qed

declare re_split_digits.simps [simp del]

datatype key_elem = KStr string | KInt int

text \<open>The inner \<open>atoi\<close>: \<open>int(tok) if tok.isdigit() else tok.lower()\<close>.\<close>

definition atoi :: "string \<Rightarrow> py_error + key_elem" where
  "atoi tok = (if isdigit tok
               then (case py_int tok of None \<Rightarrow> Inl ValueError | Some n \<Rightarrow> Inr (KInt n))
               else Inr (KStr (lower tok)))"

text \<open>A list comprehension over a function that may raise: the first error ends it.\<close>

fun comprehension :: "('a \<Rightarrow> py_error + 'b) \<Rightarrow> 'a list \<Rightarrow> py_error + 'b list" where
  "comprehension f [] = Inr []"
| "comprehension f (x # xs) =
     (case f x of Inl e \<Rightarrow> Inl e
      | Inr y \<Rightarrow> (case comprehension f xs of Inl e \<Rightarrow> Inl e | Inr ys \<Rightarrow> Inr (y # ys)))"

text \<open>\<open>natural_keys\<close> of concat_video_clips.py.\<close>

definition natural_keys :: "string \<Rightarrow> py_error + key_elem list" where
  "natural_keys text = comprehension atoi (re_split_digits text)"

text \<open>\<open>natural_keys\<close> of dashcam_clips_viewer.py.\<close>

definition natural_keys_viewer :: "string \<Rightarrow> py_error + key_elem list" where
  "natural_keys_viewer text = comprehension atoi (re_split_digits text)"

text \<open>
  Python's \<open><\<close> on the keys. Strings compare by code points, integers by value, and an
  integer against a string raises TypeError. Lists compare at the first position where
  the elements are not equal (\<open>==\<close> between an integer and a string is just false); when
  there is none, the shorter list is the smaller.
\<close>

fun str_lt :: "string \<Rightarrow> string \<Rightarrow> bool" where
  "str_lt [] [] = False"
| "str_lt [] (y # ys) = True"
| "str_lt (x # xs) [] = False"
| "str_lt (x # xs) (y # ys) = (if x = y then str_lt xs ys else code x < code y)"

fun elem_lt :: "key_elem \<Rightarrow> key_elem \<Rightarrow> py_error + bool" where
  "elem_lt (KStr a) (KStr b) = Inr (str_lt a b)"
| "elem_lt (KInt a) (KInt b) = Inr (a < b)"
| "elem_lt (KStr a) (KInt b) = Inl TypeError"
| "elem_lt (KInt a) (KStr b) = Inl TypeError"

fun key_lt :: "key_elem list \<Rightarrow> key_elem list \<Rightarrow> py_error + bool" where
  "key_lt [] [] = Inr False"
| "key_lt [] (y # ys) = Inr True"
| "key_lt (x # xs) [] = Inr False"
| "key_lt (x # xs) (y # ys) = (if x = y then key_lt xs ys else elem_lt x y)"

text \<open>
  \<open>sorted(xs, key=...)\<close> and \<open>list.sort(key=...)\<close>: every key is computed first (an error
  there ends the call), then the elements are ordered by \<open><\<close> on the keys, equal keys
  keeping their order. The model inserts from the right with \<open><\<close> only; CPython's merge
  sort gives the same list whenever \<open><\<close> is a strict weak order that never raises.
\<close>

fun insert_by_key :: "key_elem list \<times> 'a \<Rightarrow> (key_elem list \<times> 'a) list
    \<Rightarrow> py_error + (key_elem list \<times> 'a) list" where
  "insert_by_key x [] = Inr [x]"
| "insert_by_key x (y # ys) =
     (case key_lt (fst y) (fst x) of
        Inl e \<Rightarrow> Inl e
      | Inr True \<Rightarrow> (case insert_by_key x ys of Inl e \<Rightarrow> Inl e | Inr zs \<Rightarrow> Inr (y # zs))
      | Inr False \<Rightarrow> Inr (x # y # ys))"

fun sort_pairs :: "(key_elem list \<times> 'a) list \<Rightarrow> py_error + (key_elem list \<times> 'a) list" where
  "sort_pairs [] = Inr []"
| "sort_pairs (x # xs) =
     (case sort_pairs xs of Inl e \<Rightarrow> Inl e | Inr ys \<Rightarrow> insert_by_key x ys)"

definition py_sorted :: "('a \<Rightarrow> py_error + key_elem list) \<Rightarrow> 'a list \<Rightarrow> py_error + 'a list" where
  "py_sorted key xs =
     (case comprehension (\<lambda>x. case key x of Inl e \<Rightarrow> Inl e | Inr k \<Rightarrow> Inr (k, x)) xs of
        Inl e \<Rightarrow> Inl e
      | Inr kxs \<Rightarrow> (case sort_pairs kxs of Inl e \<Rightarrow> Inl e | Inr ys \<Rightarrow> Inr (map snd ys)))"

section \<open>The folder as both tools see it\<close>

text \<open>
  One entry of \<open>folder.iterdir()\<close>: the attributes of the path object that the tools read,
  and what \<open>cv2.VideoCapture(str(p))\<close> gives for it: nothing when \<open>isOpened()\<close> is false,
  else the four properties the player reads with \<open>cap.get\<close>.
\<close>

record capture =
  CAP_PROP_FPS :: real
  CAP_PROP_FRAME_COUNT :: real
  CAP_PROP_FRAME_WIDTH :: real
  CAP_PROP_FRAME_HEIGHT :: real

record dir_entry =
  p_str :: string
  p_name :: string
  p_suffix :: string
  p_is_file :: bool
  p_capture :: "capture option"

definition is_mp4 :: "dir_entry \<Rightarrow> bool" where
  "is_mp4 p = (p_is_file p \<and> lower (p_suffix p) = ''.mp4'')"

section \<open>The player (dashcam_clips_viewer.py)\<close>

definition clamp :: "'a::linorder \<Rightarrow> 'a \<Rightarrow> 'a \<Rightarrow> 'a" where
  "clamp val lo hi = max lo (min hi val)"

text \<open>The clip descriptor: the dict that \<open>_load_folder\<close> appends to \<open>files\<close>.\<close>

record clip =
  path :: string
  fps :: real
  frames :: int
  width :: int
  height :: int
  start_frame :: int
  start_time :: real

text \<open>
  The fields of \<open>FolderVideoPlayer\<close> that folder loading and the frame mapper read or write.
  \<open>cap\<close> holds the path of the open capture; \<open>dialogs\<close> collects the calls of
  \<open>messagebox.showerror\<close> (title and message). The widgets are left out.
\<close>

record player =
  files :: "clip list"
  total_frames :: int
  total_seconds :: real
  cap :: "string option"
  cur_file_idx :: int
  cur_global_frame :: int
  dialogs :: "(string \<times> string) list"

text \<open>The state that \<open>__init__\<close> sets up.\<close>

definition init_player :: player where
  "init_player = \<lparr>files = [], total_frames = 0, total_seconds = 0, cap = None,
                   cur_file_idx = - 1, cur_global_frame = 0, dialogs = []\<rparr>"

text \<open>\<open>xs[i]\<close>: a negative index counts from the end, an index out of range raises.\<close>

definition py_index :: "'a list \<Rightarrow> int \<Rightarrow> py_error + 'a" where
  "py_index xs i =
     (if 0 \<le> i \<and> i < int (length xs) then Inr (xs ! nat i)
      else if i < 0 \<and> - int (length xs) \<le> i then Inr (xs ! nat (int (length xs) + i))
      else Inl IndexError)"

text \<open>
  The \<open>for i, f in enumerate(self.files)\<close> loop of \<open>_global_to_file_local\<close>, from index
  \<open>i\<close> on: \<open>Some\<close> is the \<open>return\<close> inside the loop, \<open>None\<close> is the loop running out.
\<close>

fun scan_files :: "clip list \<Rightarrow> int \<Rightarrow> int \<Rightarrow> (int \<times> int) option" where
  "scan_files [] i gframe = None"
| "scan_files (f # fs) i gframe =
     (let start = start_frame f;
          end_frame = start + frames f
      in if gframe < end_frame then Some (i, gframe - start)
         else scan_files fs (i + 1) gframe)"

definition global_to_file_local :: "player \<Rightarrow> int \<Rightarrow> py_error + (int \<times> int)" where
  "global_to_file_local self gframe0 =
     (let gframe = clamp gframe0 0 (max 0 (total_frames self - 1))
      in case scan_files (files self) 0 gframe of
           Some r \<Rightarrow> Inr r
         | None \<Rightarrow>
             (let last = int (length (files self)) - 1
              in case py_index (files self) last of
                   Inl e \<Rightarrow> Inl e
                 | Inr f \<Rightarrow> Inr (last, max 0 (frames f - 1))))"

text \<open>\<open>_open_capture_for_file\<close> and \<open>_open_capture_for_global_frame\<close>.\<close>

definition open_capture_for_file :: "player \<Rightarrow> int \<Rightarrow> py_error + player" where
  "open_capture_for_file self idx =
     (if idx = cur_file_idx self then Inr self
      else case py_index (files self) idx of
             Inl e \<Rightarrow> Inl e
           | Inr f \<Rightarrow> Inr (self\<lparr>cap := Some (path f), cur_file_idx := idx\<rparr>))"

definition open_capture_for_global_frame :: "player \<Rightarrow> int \<Rightarrow> py_error + player" where
  "open_capture_for_global_frame self gframe =
     (case global_to_file_local self gframe of
        Inl e \<Rightarrow> Inl e
      | Inr (idx, local) \<Rightarrow> open_capture_for_file self idx)"

text \<open>
  \<open>int(x)\<close> for a float truncates towards zero; \<open>x or d\<close> is \<open>d\<close> when \<open>x\<close> is zero.
\<close>

definition int_of_float :: "real \<Rightarrow> int" where
  "int_of_float x = (if 0 \<le> x then \<lfloor>x\<rfloor> else \<lceil>x\<rceil>)"

definition py_or :: "real \<Rightarrow> real \<Rightarrow> real" where
  "py_or x d = (if x = 0 then d else x)"

text \<open>
  The metadata loop of \<open>_load_folder\<close> (\<open>for p in paths\<close>), with its five running
  variables; a clip that does not open is skipped by \<open>continue\<close>.
\<close>

fun build_index :: "dir_entry list \<Rightarrow> clip list \<Rightarrow> int \<Rightarrow> real \<Rightarrow> int \<Rightarrow> real
    \<Rightarrow> clip list \<times> int \<times> real" where
  "build_index [] files_acc total_frames_acc total_secs start_frame_acc start_time_acc =
     (files_acc, total_frames_acc, total_secs)"
| "build_index (p # ps) files_acc total_frames_acc total_secs start_frame_acc start_time_acc =
     (case p_capture p of
        None \<Rightarrow> build_index ps files_acc total_frames_acc total_secs start_frame_acc start_time_acc
      | Some c \<Rightarrow>
          (let fps0 = py_or (CAP_PROP_FPS c) 0;
               fps1 = (if fps0 \<le> 0.001 then 30 else fps0);
               nframes = int_of_float (py_or (CAP_PROP_FRAME_COUNT c) 0);
               w = int_of_float (py_or (CAP_PROP_FRAME_WIDTH c) 0);
               h = int_of_float (py_or (CAP_PROP_FRAME_HEIGHT c) 0);
               dur = (if nframes > 0 then real_of_int nframes / fps1 else 0)
           in build_index ps
                (files_acc @ [\<lparr>path = p_str p, fps = fps1, frames = nframes, width = w,
                                height = h, start_frame = start_frame_acc,
                                start_time = start_time_acc\<rparr>])
                (total_frames_acc + nframes) (total_secs + dur)
                (start_frame_acc + nframes) (start_time_acc + dur)))"

text \<open>
  \<open>_load_folder\<close>, given the entries of the folder. The two early returns leave a dialog
  and the old table; the last steps that only draw (the first frame, the slider, the
  labels) are left out.
\<close>

definition load_folder :: "player \<Rightarrow> dir_entry list \<Rightarrow> py_error + player" where
  "load_folder self0 folder =
     (let self = self0\<lparr>cap := None\<rparr>;
          paths = filter is_mp4 folder
      in if paths = []
         then Inr (self\<lparr>dialogs := dialogs self @
                    [(''No videos'', ''No .mp4/.MP4 files found in that folder.'')]\<rparr>)
         else case py_sorted (\<lambda>p. natural_keys_viewer (p_name p)) paths of
                Inl e \<Rightarrow> Inl e
              | Inr sorted_paths \<Rightarrow>
                  (case build_index sorted_paths [] 0 0 0 0 of
                     (fs, total_frames_new, secs) \<Rightarrow>
                       if total_frames_new = 0
                       then Inr (self\<lparr>dialogs := dialogs self @
                                  [(''No frames'', ''Could not read frames from any file.'')]\<rparr>)
                       else open_capture_for_global_frame
                              (self\<lparr>files := fs, total_frames := total_frames_new, total_seconds := secs,
                                    cur_file_idx := - 1, cur_global_frame := 0\<rparr>) 0))"

section \<open>The concatenator (concat_video_clips.py)\<close>

text \<open>
  The folder scan of \<open>App.start\<close>: the \<open>.mp4\<close> files, sorted by the natural key of the file
  name. The source sorts the strings \<open>str(p)\<close> by \<open>natural_keys(Path(p).name)\<close>; here the
  entry stands for its string until the end, \<open>Path(str(p)).name\<close> being \<open>p.name\<close>.
\<close>

definition scan_folder :: "dir_entry list \<Rightarrow> py_error + string list" where
  "scan_folder folder =
     (case py_sorted (\<lambda>p. natural_keys (p_name p)) (filter is_mp4 folder) of
        Inl e \<Rightarrow> Inl e
      | Inr ps \<Rightarrow> Inr (map p_str ps))"

text \<open>
  The speed ratio is a Python float and can be infinite: \<open>base_output_fps / user_fps\<close>
  overflows for a tiny frame rate. So it has a type of its own: a finite value, read as
  the real number it denotes, or one of the three special values. Comparisons with NaN are
  false. Of the arithmetic only what \<open>_build_atempo_chain\<close> uses is given: division by
  and subtraction of a finite positive constant, and \<open>abs\<close>. On finite values these are
  exact here but for the rounding of \<open>factor - 1.0\<close>: the loops only double values below
  0.5 and halve values above 2.0, which neither rounds nor overflows.
\<close>

datatype pyfloat = Finite real | PosInf | NegInf | NaN

fun float_lt :: "pyfloat \<Rightarrow> pyfloat \<Rightarrow> bool" where
  "float_lt (Finite a) (Finite b) = (a < b)"
| "float_lt (Finite a) PosInf = True"
| "float_lt NegInf (Finite b) = True"
| "float_lt NegInf PosInf = True"
| "float_lt a b = False"

definition float_le :: "pyfloat \<Rightarrow> pyfloat \<Rightarrow> bool" where
  "float_le a b = (float_lt a b \<or> (a = b \<and> a \<noteq> NaN))"

fun float_div :: "pyfloat \<Rightarrow> real \<Rightarrow> pyfloat" where
  "float_div (Finite a) c = Finite (a / c)"
| "float_div PosInf c = PosInf"
| "float_div NegInf c = NegInf"
| "float_div NaN c = NaN"

fun float_sub :: "pyfloat \<Rightarrow> real \<Rightarrow> pyfloat" where
  "float_sub (Finite a) c = Finite (a - c)"
| "float_sub PosInf c = PosInf"
| "float_sub NegInf c = NegInf"
| "float_sub NaN c = NaN"

fun float_abs :: "pyfloat \<Rightarrow> pyfloat" where
  "float_abs (Finite a) = Finite \<bar>a\<bar>"
| "float_abs PosInf = PosInf"
| "float_abs NegInf = PosInf"
| "float_abs NaN = NaN"

text \<open>
  \<open>_build_atempo_chain\<close>. Its two \<open>while\<close> loops carry \<open>factor\<close> and \<open>steps\<close>; nothing in
  the loops themselves bounds the number of rounds, so each is a partial function and
  \<open>None\<close> stands for a loop that never ends.
\<close>

partial_function (option) atempo_below :: "pyfloat \<Rightarrow> pyfloat list \<Rightarrow> (pyfloat \<times> pyfloat list) option" where
  "atempo_below factor steps =
     (if float_lt factor (Finite 0.5)
      then atempo_below (float_div factor 0.5) (steps @ [Finite 0.5])
      else Some (factor, steps))"

partial_function (option) atempo_above :: "pyfloat \<Rightarrow> pyfloat list \<Rightarrow> (pyfloat \<times> pyfloat list) option" where
  "atempo_above factor steps =
     (if float_lt (Finite 2.0) factor
      then atempo_above (float_div factor 2.0) (steps @ [Finite 2.0])
      else Some (factor, steps))"

definition build_atempo_chain :: "pyfloat \<Rightarrow> pyfloat list option" where
  "build_atempo_chain factor =
     (if float_le factor (Finite 0) then Some []
      else case atempo_below factor [] of
             None \<Rightarrow> None
           | Some (factor1, steps1) \<Rightarrow>
               (case atempo_above factor1 steps1 of
                  None \<Rightarrow> None
                | Some (factor2, steps2) \<Rightarrow>
                    Some (if float_lt (Finite 0.000001) (float_abs (float_sub factor2 1.0))
                          then steps2 @ [factor2] else steps2)))"

text \<open>String helpers of the progress parser.\<close>

definition startswith :: "string \<Rightarrow> string \<Rightarrow> bool" where
  "startswith s pre = (take (length pre) s = pre)"

text \<open>\<open>s.split(sep, 1)\<close> for a one-character separator: cut at the first \<open>sep\<close>, if any.\<close>

definition split_once :: "char \<Rightarrow> string \<Rightarrow> string list" where
  "split_once sep s =
     (case dropWhile (\<lambda>c. c \<noteq> sep) s of
        [] \<Rightarrow> [s]
      | _ # rest \<Rightarrow> [takeWhile (\<lambda>c. c \<noteq> sep) s, rest])"

text \<open>\<open>s.split(sep)\<close> for a one-character separator: cut at every \<open>sep\<close>.\<close>

fun split_all :: "char \<Rightarrow> string \<Rightarrow> string list" where
  "split_all sep [] = [[]]"
| "split_all sep (c # cs) =
     (if c = sep then [] # split_all sep cs
      else (case split_all sep cs of
              [] \<Rightarrow> [[c]]
            | part # parts \<Rightarrow> (c # part) # parts))"

text \<open>
  The \<open>try\<close> block of an \<open>out_time_ms=\<close> line, up to the value it computes: \<open>None\<close> is
  any exception, which \<open>except Exception: pass\<close> swallows.
\<close>

definition out_time_ms_secs :: "string \<Rightarrow> real option" where
  "out_time_ms_secs line =
     (case py_index (split_once CHR ''='' line) 1 of
        Inl e \<Rightarrow> None
      | Inr v \<Rightarrow> (case py_int (strip v) of
                    None \<Rightarrow> None
                  | Some us \<Rightarrow> Some (real_of_int us / 1000000)))"

text \<open>
  The \<open>try\<close> block of an \<open>out_time=\<close> line. \<open>float(ss)\<close> is the parameter \<open>py_float\<close>
  (\<open>None\<close> when it raises); unpacking into \<open>hh, mm, ss\<close> needs exactly three parts.
\<close>

definition out_time_secs :: "(string \<Rightarrow> real option) \<Rightarrow> string \<Rightarrow> real option" where
  "out_time_secs py_float line =
     (case py_index (split_once CHR ''='' line) 1 of
        Inl e \<Rightarrow> None
      | Inr v \<Rightarrow>
          (case split_all CHR '':'' (strip v) of
             [hh, mm, ss] \<Rightarrow>
               (case (py_int hh, py_int mm, py_float ss) of
                  (Some h, Some m, Some sec) \<Rightarrow>
                    Some (real_of_int (h * 3600) + real_of_int (m * 60) + sec)
                | _ \<Rightarrow> None)
           | _ \<Rightarrow> None))"

text \<open>
  The body of the loop \<open>for raw in proc.stdout\<close> of \<open>run_ffmpeg_concat\<close>. A callback is
  \<open>None\<close> or a function that acts on the rest of the program, whose state is \<open>'w\<close>; the
  callbacks themselves are taken not to raise.
\<close>

definition call :: "('a \<Rightarrow> 'w \<Rightarrow> 'w) option \<Rightarrow> 'a \<Rightarrow> 'w \<Rightarrow> 'w" where
  "call callback x w = (case callback of None \<Rightarrow> w | Some cb \<Rightarrow> cb x w)"

definition handle_line :: "(string \<Rightarrow> real option) \<Rightarrow> (real \<Rightarrow> 'w \<Rightarrow> 'w) option
    \<Rightarrow> (string \<Rightarrow> 'w \<Rightarrow> 'w) option \<Rightarrow> string \<Rightarrow> 'w \<Rightarrow> 'w" where
  "handle_line py_float progress_callback log_callback raw w =
     (let line = strip raw
      in if line = [] then w
         else if startswith line ''out_time_ms='' then
           (case out_time_ms_secs line of
              None \<Rightarrow> w
            | Some secs \<Rightarrow> call progress_callback secs w)
         else if startswith line ''out_time='' then
           (case out_time_secs py_float line of
              None \<Rightarrow> w
            | Some secs \<Rightarrow> call progress_callback secs w)
         else if startswith line ''progress='' then w
         else call log_callback line w)"

text \<open>
  \<open>run_ffmpeg_concat\<close> from the point where the encoder runs: \<open>stdout\<close> is the lines it
  prints, \<open>returncode\<close> what \<open>proc.wait()\<close> returns. Building the command is left out.
\<close>

fun read_stdout :: "(string \<Rightarrow> real option) \<Rightarrow> (real \<Rightarrow> 'w \<Rightarrow> 'w) option
    \<Rightarrow> (string \<Rightarrow> 'w \<Rightarrow> 'w) option \<Rightarrow> string list \<Rightarrow> 'w \<Rightarrow> 'w" where
  "read_stdout py_float progress_callback log_callback [] w = w"
| "read_stdout py_float progress_callback log_callback (raw # rest) w =
     read_stdout py_float progress_callback log_callback rest
       (handle_line py_float progress_callback log_callback raw w)"

definition run_ffmpeg_concat :: "(string \<Rightarrow> real option) \<Rightarrow> (real \<Rightarrow> 'w \<Rightarrow> 'w) option
    \<Rightarrow> (string \<Rightarrow> 'w \<Rightarrow> 'w) option \<Rightarrow> string list \<Rightarrow> int \<Rightarrow> 'w \<Rightarrow> int \<times> 'w" where
  "run_ffmpeg_concat py_float progress_callback log_callback stdout returncode w =
     (returncode, read_stdout py_float progress_callback log_callback stdout w)"

text \<open>
  Two callbacks that only record what they are called with, in order: the seconds in the
  first list, the log lines in the second.
\<close>

fun record_secs :: "real \<Rightarrow> real list \<times> string list \<Rightarrow> real list \<times> string list" where
  "record_secs secs (seen, logged) = (seen @ [secs], logged)"

fun record_line :: "string \<Rightarrow> real list \<times> string list \<Rightarrow> real list \<times> string list" where
  "record_line line (seen, logged) = (seen, logged @ [line])"


section \<open>Notions of the specification\<close>

text \<open>The decimal numeral of an integer, as the encoder prints it (Python's \<open>str(n)\<close>).\<close>

fun decimal_nat :: "nat \<Rightarrow> string" where
  "decimal_nat n =
     (if n < 10 then [char_of (48 + n)]
      else decimal_nat (n div 10) @ [char_of (48 + n mod 10)])"

declare decimal_nat.simps [simp del]

definition decimal :: "int \<Rightarrow> string" where
  "decimal n = (if n < 0 then CHR ''-'' # decimal_nat (nat (- n)) else decimal_nat (nat n))"








text \<open>\<open>a < b\<close> on two names through a key function, as a sort by that key compares them.\<close>

definition name_lt :: "(string \<Rightarrow> py_error + key_elem list) \<Rightarrow> string \<Rightarrow> string
    \<Rightarrow> py_error + bool" where
  "name_lt key a b =
     (case key a of
        Inl e \<Rightarrow> Inl e
      | Inr ka \<Rightarrow> (case key b of Inl e \<Rightarrow> Inl e | Inr kb \<Rightarrow> key_lt ka kb))"

text \<open>A text that does not start with a decimal digit (it may be empty).\<close>

fun no_leading_digit :: "string \<Rightarrow> bool" where
  "no_leading_digit [] = True"
| "no_leading_digit (c # cs) = (\<not> is_decimal c)"

text \<open>A text none of whose characters is a superscript digit.\<close>

definition no_superscripts :: "string \<Rightarrow> bool" where
  "no_superscripts s = list_all (\<lambda>c. is_decimal c \<or> \<not> is_digit_char c) s"

text \<open>
  A key alternates when its elements at even positions are strings and those at odd
  positions are integers.
\<close>

fun alternates :: "key_elem list \<Rightarrow> bool" where
  "alternates [] = True"
| "alternates [KStr s] = True"
| "alternates (KStr s # KInt n # rest) = alternates rest"
| "alternates _ = False"

text \<open>
  The clip table is contiguous from \<open>s\<close>: the first clip starts at \<open>s\<close> and each next one
  where the one before it ends.
\<close>

fun contiguous_from :: "int \<Rightarrow> clip list \<Rightarrow> bool" where
  "contiguous_from s [] = True"
| "contiguous_from s (f # fs) = (start_frame f = s \<and> contiguous_from (s + frames f) fs)"

text \<open>Each clip's start frame is the sum of the frame counts of all earlier clips.\<close>

definition starts_are_prefix_sums :: "clip list \<Rightarrow> bool" where
  "starts_are_prefix_sums fs =
     list_all (\<lambda>i. start_frame (fs ! i) = sum_list (map frames (take i fs))) [0..<length fs]"

text \<open>
  The first descriptor starts at frame 0 and each later one at the start of the one before
  it plus that one's frame count.
\<close>

definition gapless :: "clip list \<Rightarrow> bool" where
  "gapless fs =
     ((case fs of [] \<Rightarrow> True | f # _ \<Rightarrow> start_frame f = 0) \<and>
      list_all (\<lambda>i. start_frame (fs ! Suc i) = start_frame (fs ! i) + frames (fs ! i))
        [0..<length fs - 1])"

text \<open>The index in \<open>[0, n - 1]\<close> nearest to \<open>g\<close>.\<close>

definition nearest_in_range :: "int \<Rightarrow> int \<Rightarrow> int" where
  "nearest_in_range n g = (if g < 0 then 0 else if n \<le> g then n - 1 else g)"

text \<open>
  The owner of frame \<open>g\<close> by a scan in order: the first clip whose end (start plus frame
  count) lies beyond \<open>g\<close>, with the offset of \<open>g\<close> into it.
\<close>

definition first_owner :: "clip list \<Rightarrow> int \<Rightarrow> (int \<times> int) option" where
  "first_owner fs g =
     map_option (\<lambda>i. (int i, g - start_frame (fs ! i)))
       (find (\<lambda>i. g < start_frame (fs ! i) + frames (fs ! i)) [0..<length fs])"

section \<open>Example inputs\<close>

text \<open>A player holding two clips of 3 and 2 frames.\<close>

definition two_clips :: player where
  "two_clips =
     \<lparr>files = [\<lparr>path = ''a.mp4'', fps = 30, frames = 3, width = 4, height = 2,
                 start_frame = 0, start_time = 0\<rparr>,
                \<lparr>path = ''b.mp4'', fps = 30, frames = 2, width = 4, height = 2,
                 start_frame = 3, start_time = 0.1\<rparr>],
      total_frames = 5, total_seconds = 1 / 6, cap = None, cur_file_idx = - 1,
      cur_global_frame = 0, dialogs = []\<rparr>"

text \<open>
  Three folder entries: two clips that open (3 and 2 frames; the second with an
  upper-case suffix and no frame rate) and one that does not.
\<close>

definition clip2_entry :: dir_entry where
  "clip2_entry =
     \<lparr>p_str = ''/v/clip2.mp4'', p_name = ''clip2.mp4'', p_suffix = ''.mp4'', p_is_file = True,
      p_capture = Some \<lparr>CAP_PROP_FPS = 30, CAP_PROP_FRAME_COUNT = 3,
                         CAP_PROP_FRAME_WIDTH = 4, CAP_PROP_FRAME_HEIGHT = 2\<rparr>\<rparr>"

definition clip10_entry :: dir_entry where
  "clip10_entry =
     \<lparr>p_str = ''/v/clip10.MP4'', p_name = ''clip10.MP4'', p_suffix = ''.MP4'', p_is_file = True,
      p_capture = Some \<lparr>CAP_PROP_FPS = 0, CAP_PROP_FRAME_COUNT = 2,
                         CAP_PROP_FRAME_WIDTH = 4, CAP_PROP_FRAME_HEIGHT = 2\<rparr>\<rparr>"

definition clip10_unreadable :: dir_entry where
  "clip10_unreadable =
     \<lparr>p_str = ''/v/clip10.mp4'', p_name = ''clip10.mp4'', p_suffix = ''.mp4'', p_is_file = True,
      p_capture = None\<rparr>"

text \<open>A readable clip whose name starts with a superscript two (U+00B2).\<close>

definition squared_entry :: dir_entry where
  "squared_entry =
     \<lparr>p_str = ''/v/'' @ CHR 0xB2 # ''1.mp4'', p_name = CHR 0xB2 # ''1.mp4'', p_suffix = ''.mp4'',
      p_is_file = True,
      p_capture = Some \<lparr>CAP_PROP_FPS = 30, CAP_PROP_FRAME_COUNT = 3,
                         CAP_PROP_FRAME_WIDTH = 4, CAP_PROP_FRAME_HEIGHT = 2\<rparr>\<rparr>"

text \<open>The player after loading both readable clips, and after loading only \<open>clip2\<close>.\<close>

definition loaded_two :: player where
  "loaded_two =
     \<lparr>files = [\<lparr>path = ''/v/clip2.mp4'', fps = 30, frames = 3, width = 4, height = 2,
                 start_frame = 0, start_time = 0\<rparr>,
                \<lparr>path = ''/v/clip10.MP4'', fps = 30, frames = 2, width = 4, height = 2,
                 start_frame = 3, start_time = 1 / 10\<rparr>],
      total_frames = 5, total_seconds = 1 / 6, cap = Some ''/v/clip2.mp4'', cur_file_idx = 0,
      cur_global_frame = 0, dialogs = []\<rparr>"

definition loaded_one :: player where
  "loaded_one =
     \<lparr>files = [\<lparr>path = ''/v/clip2.mp4'', fps = 30, frames = 3, width = 4, height = 2,
                 start_frame = 0, start_time = 0\<rparr>],
      total_frames = 3, total_seconds = 1 / 10, cap = Some ''/v/clip2.mp4'', cur_file_idx = 0,
      cur_global_frame = 0, dialogs = []\<rparr>"


definition demo_float :: "string \<Rightarrow> real option" where
  "demo_float s = (if s = ''02.000000'' then Some 2
                   else if s = ''03.250000'' then Some 3.25 else None)"

section \<open>Decimal numerals and \<open>int()\<close>\<close>

lemma code_char_of: "n < 256 \<Longrightarrow> code (char_of n) = n"
  by (simp add: code_def)

lemma digit_char:
  assumes "k < 10"
  shows "is_decimal (char_of (48 + k))" and "digit_value (char_of (48 + k)) = int k"
  using assms by (simp_all add: is_decimal_def digit_value_def code_char_of)

lemma decimal_not_space: "is_decimal c \<Longrightarrow> \<not> is_space c"
  by (auto simp: is_decimal_def is_space_def)

lemma strip_id:
  assumes "s \<noteq> []" and "\<not> is_space (hd s)" and "\<not> is_space (last s)"
  shows "strip s = s"
proof -
  from assms(1,2) have "dropWhile is_space s = s"
    by (simp add: dropWhile_eq_self_iff)
  moreover from assms(1,3) have "dropWhile is_space (rev s) = rev s"
    by (simp add: dropWhile_eq_self_iff hd_rev)
  ultimately show ?thesis by (simp add: strip_def)
qed

lemma set_strip: "set (strip s) \<subseteq> set s"
proof
  fix c assume "c \<in> set (strip s)"
  then have "c \<in> set (dropWhile is_space (rev (dropWhile is_space s)))"
    by (simp add: strip_def)
  then have "c \<in> set (rev (dropWhile is_space s))" by (rule set_dropWhileD)
  then have "c \<in> set (dropWhile is_space s)" by simp
  then show "c \<in> set s" by (rule set_dropWhileD)
qed

lemma decimal_nat_digits: "decimal_nat n \<noteq> [] \<and> list_all is_decimal (decimal_nat n)"
proof (induction n rule: decimal_nat.induct)
  case (1 n)
  show ?case
  proof (cases "n < 10")
    case True
    then show ?thesis by (simp add: decimal_nat.simps [of n] digit_char)
  next
    case False
    have "n mod 10 < 10" by simp
    with False 1 show ?thesis by (simp add: decimal_nat.simps [of n] digit_char)
  qed
qed

lemma int_digits_snoc:
  "list_all is_decimal ds \<Longrightarrow> is_decimal c \<Longrightarrow>
     int_digits acc (ds @ [c]) = map_option (\<lambda>v. 10 * v + digit_value c) (int_digits acc ds)"
proof (induction ds arbitrary: acc)
  case Nil
  then show ?case by simp
next
  case (Cons d ds)
  show ?case
  proof (cases ds)
    case Nil
    with Cons.prems show ?thesis by simp
  next
    case (Cons e es)
    with Cons.prems Cons.IH [of "10 * acc + digit_value d"] show ?thesis by simp
  qed
qed

lemma int_unsigned_snoc:
  assumes "ds \<noteq> []" and "list_all is_decimal ds" and "is_decimal c"
  shows "int_unsigned (ds @ [c]) = map_option (\<lambda>v. 10 * v + digit_value c) (int_unsigned ds)"
proof -
  from assms(1) obtain d es where ds: "ds = d # es" by (cases ds) auto
  with assms(2) have "is_decimal d" "list_all is_decimal es" by simp_all
  with assms(3) ds show ?thesis by (simp add: int_unsigned_def int_digits_snoc)
qed

lemma int_unsigned_decimal_nat: "int_unsigned (decimal_nat n) = Some (int n)"
proof (induction n rule: decimal_nat.induct)
  case (1 n)
  show ?case
  proof (cases "n < 10")
    case True
    then show ?thesis
      by (simp add: decimal_nat.simps [of n] int_unsigned_def digit_char)
  next
    case False
    have m: "n mod 10 < 10" by simp
    from False 1 have ih: "int_unsigned (decimal_nat (n div 10)) = Some (int (n div 10))" by simp
    have "int_unsigned (decimal_nat n) =
          map_option (\<lambda>v. 10 * v + digit_value (char_of (48 + n mod 10)))
            (int_unsigned (decimal_nat (n div 10)))"
      using False decimal_nat_digits [of "n div 10"] digit_char(1) [OF m]
      by (simp add: decimal_nat.simps [of n] int_unsigned_snoc)
    also have "\<dots> = Some (10 * int (n div 10) + int (n mod 10))"
      by (simp add: ih digit_char(2) [OF m])
    also have "10 * int (n div 10) + int (n mod 10) = int n"
      by (simp add: zdiv_int zmod_int)
    finally show ?thesis .
  qed
qed

lemma decimal_ends:
  "decimal n \<noteq> [] \<and> \<not> is_space (hd (decimal n)) \<and> is_decimal (last (decimal n)) \<and>
   CHR ''='' \<notin> set (decimal n)"
proof -
  have minus: "\<not> is_space CHR ''-''" by code_simp
  have eq: "\<not> is_decimal CHR ''=''" by code_simp
  have d: "decimal_nat k \<noteq> []" "list_all is_decimal (decimal_nat k)" for k
    using decimal_nat_digits [of k] by simp_all
  have h: "is_decimal (hd (decimal_nat k))" for k
    using d [of k] by (cases "decimal_nat k") simp_all
  have l: "is_decimal (last (decimal_nat k))" for k
    using d [of k] by (simp add: list_all_iff)
  have e: "CHR ''='' \<notin> set (decimal_nat k)" for k
    using d(2) [of k] eq by (auto simp: list_all_iff)
  show ?thesis
    using d(1) h l e minus by (simp add: decimal_def decimal_not_space)
qed

lemma py_int_decimal: "py_int (decimal n) = Some n"
proof -
  from decimal_ends [of n] have s: "strip (decimal n) = decimal n"
    by (intro strip_id) (simp_all add: decimal_not_space)
  have d: "is_decimal (hd (decimal_nat k))" "decimal_nat k \<noteq> []" for k
    using decimal_nat_digits [of k] by (cases "decimal_nat k"; simp)+
  have nm: "\<not> is_decimal CHR ''-''" "\<not> is_decimal CHR ''+''" by code_simp+
  show ?thesis
  proof (cases "n < 0")
    case True
    then show ?thesis
      unfolding py_int_def s by (simp add: decimal_def int_unsigned_decimal_nat)
  next
    case False
    obtain c cs where c: "decimal_nat (nat n) = c # cs"
      using d(2) [of "nat n"] by (cases "decimal_nat (nat n)") auto
    with d(1) [of "nat n"] nm have "c \<noteq> CHR ''-''" "c \<noteq> CHR ''+''" by auto
    with False c int_unsigned_decimal_nat [of "nat n"] show ?thesis
      unfolding py_int_def s by (simp add: decimal_def)
  qed
qed

section \<open>The frame mapper\<close>

lemma clamp_idem: "clamp (clamp g 0 (max 0 (n - 1))) 0 (max 0 (n - 1)) = clamp g (0::int) (max 0 (n - 1))"
  by (simp add: clamp_def)

lemma clamp_nearest: "0 < n \<Longrightarrow> clamp g 0 (max 0 (n - 1)) = nearest_in_range n g"
  by (auto simp: clamp_def nearest_in_range_def)

lemma scan_files_start:
  "contiguous_from s fs \<Longrightarrow> s \<le> g \<Longrightarrow> scan_files fs i g = Some (j, l) \<Longrightarrow>
     i \<le> j \<and> j < i + int (length fs) \<and> start_frame (fs ! nat (j - i)) \<le> g \<and>
     g < start_frame (fs ! nat (j - i)) + frames (fs ! nat (j - i)) \<and>
     l = g - start_frame (fs ! nat (j - i))"
proof (induction fs arbitrary: s i)
  case Nil
  then show ?case by simp
next
  case (Cons f fs)
  show ?case
  proof (cases "g < start_frame f + frames f")
    case True
    with Cons.prems show ?thesis by simp
  next
    case False
    with Cons.prems have c: "contiguous_from (s + frames f) fs" and le: "s + frames f \<le> g"
      and sc: "scan_files fs (i + 1) g = Some (j, l)"
      by simp_all
    from Cons.IH [OF c le sc] have ih: "i + 1 \<le> j" "j < i + 1 + int (length fs)"
      "start_frame (fs ! nat (j - (i + 1))) \<le> g"
      "g < start_frame (fs ! nat (j - (i + 1))) + frames (fs ! nat (j - (i + 1)))"
      "l = g - start_frame (fs ! nat (j - (i + 1)))"
      by simp_all
    from ih(1) have "nat (j - i) = Suc (nat (j - (i + 1)))" by simp
    with ih show ?thesis by simp
  qed
qed

lemma scan_files_none:
  "contiguous_from s fs \<Longrightarrow> s \<le> g \<Longrightarrow> scan_files fs i g = None \<Longrightarrow>
     s + sum_list (map frames fs) \<le> g"
proof (induction fs arbitrary: s i)
  case Nil
  then show ?case by simp
next
  case (Cons f fs)
  from Cons.prems have "\<not> g < start_frame f + frames f"
    by (auto simp: Let_def split: if_splits)
  with Cons.prems have "s + frames f + sum_list (map frames fs) \<le> g"
    by (intro Cons.IH [of "s + frames f" "i + 1"]) simp_all
  then show ?case by simp
qed

lemma contiguous_from_nth:
  "contiguous_from s fs \<Longrightarrow> i < length fs \<Longrightarrow> start_frame (fs ! i) = s + sum_list (map frames (take i fs))"
proof (induction fs arbitrary: s i)
  case Nil
  then show ?case by simp
next
  case (Cons f fs)
  show ?case
  proof (cases i)
    case 0
    with Cons.prems show ?thesis by simp
  next
    case (Suc k)
    with Cons.prems have "start_frame (fs ! k) = s + frames f + sum_list (map frames (take k fs))"
      by (intro Cons.IH) simp_all
    with Suc show ?thesis by simp
  qed
qed

lemma nth_contiguous_from:
  "(\<And>i. i < length fs \<Longrightarrow> start_frame (fs ! i) = s + sum_list (map frames (take i fs))) \<Longrightarrow> contiguous_from s fs"
proof (induction fs arbitrary: s)
  case Nil
  then show ?case by simp
next
  case (Cons f fs)
  from Cons.prems [of 0] have h: "start_frame f = s" by simp
  have "contiguous_from (s + frames f) fs"
  proof (rule Cons.IH)
    fix i assume "i < length fs"
    with Cons.prems [of "Suc i"] show "start_frame (fs ! i) = s + frames f + sum_list (map frames (take i fs))"
      by simp
  qed
  with h show ?case by simp
qed

lemma prefix_sums_iff: "starts_are_prefix_sums fs \<longleftrightarrow> contiguous_from 0 fs"
  unfolding starts_are_prefix_sums_def list_all_iff
  using contiguous_from_nth [of 0 fs] nth_contiguous_from [of fs 0] by auto

lemma gapless_iff: "gapless fs \<longleftrightarrow> contiguous_from 0 fs"
proof -
  have "contiguous_from s fs \<longleftrightarrow>
        (case fs of [] \<Rightarrow> True | f # _ \<Rightarrow> start_frame f = s) \<and>
        (\<forall>i. Suc i < length fs \<longrightarrow> start_frame (fs ! Suc i) = start_frame (fs ! i) + frames (fs ! i))" for s
  proof (induction fs arbitrary: s)
    case Nil
    then show ?case by simp
  next
    case (Cons f fs)
    show ?case
    proof (cases fs)
      case Nil
      then show ?thesis by simp
    next
      case (Cons f' fs')
      show ?thesis
        unfolding contiguous_from.simps Cons.IH
        using Cons by (auto simp: nth_Cons split: nat.splits)
    qed
  qed
  then show ?thesis
    unfolding gapless_def list_all_iff by (auto simp: less_diff_conv)
qed


lemma find_map: "List.find P (map f xs) = map_option f (List.find (\<lambda>x. P (f x)) xs)"
  by (induction xs) simp_all

lemma scan_files_find:
  "scan_files fs i g =
     map_option (\<lambda>k. (i + int k, g - start_frame (fs ! k)))
       (List.find (\<lambda>k. g < start_frame (fs ! k) + frames (fs ! k)) [0..<length fs])"
proof (induction fs arbitrary: i)
  case Nil
  show ?case by simp
next
  case (Cons f fs)
  have "[0..<Suc (length fs)] = 0 # [Suc 0..<Suc (length fs)]"
    by (rule upt_conv_Cons) simp
  then have upt: "[0..<length (f # fs)] = 0 # map Suc [0..<length fs]"
    by (simp only: map_Suc_upt length_Cons)
  show ?case
    unfolding upt
    by (simp add: find_map Cons.IH [of "i + 1"] option.map_comp comp_def Let_def add.assoc)
qed

lemma scan_files_first_owner: "scan_files fs 0 g = first_owner fs g"
  by (simp add: scan_files_find first_owner_def)


text \<open>
  C1. On a non-empty clip table whose start frames are the sums of the earlier frame
  counts, with \<open>total_frames\<close> the sum of all frame counts, every global frame \<open>g\<close> with
  \<open>0 \<le> g < total_frames\<close> is mapped to a pair \<open>(i, local)\<close> where clip \<open>i\<close> exists,
  \<open>start_frame i \<le> g < start_frame i + frames i\<close> and \<open>local = g - start_frame i\<close>. This
  covers the first frame of every clip and the last valid frame \<open>total_frames - 1\<close>.
\<close>

theorem global_to_file_local_owner:
  assumes "files self \<noteq> []"
    and "starts_are_prefix_sums (files self)"
    and "total_frames self = sum_list (map frames (files self))"
    and "0 \<le> g" and "g < total_frames self"
  shows "\<exists>i local. global_to_file_local self g = Inr (i, local) \<and>
           0 \<le> i \<and> i < int (length (files self)) \<and>
           start_frame (files self ! nat i) \<le> g \<and>
           g < start_frame (files self ! nat i) + frames (files self ! nat i) \<and>
           local = g - start_frame (files self ! nat i)"
proof -
  from assms(2) have c: "contiguous_from 0 (files self)" by (simp add: prefix_sums_iff)
  from assms(4,5) have cl: "clamp g 0 (max 0 (total_frames self - 1)) = g"
    by (simp add: clamp_def)
  have "scan_files (files self) 0 g \<noteq> None"
  proof
    assume "scan_files (files self) 0 g = None"
    from scan_files_none [OF c assms(4) this] assms(3,5) show False by simp
  qed
  then obtain i l where s: "scan_files (files self) 0 g = Some (i, l)" by auto
  from scan_files_start [OF c assms(4) s] s cl show ?thesis
    by (simp add: global_to_file_local_def)
qed


theorem global_to_file_local_owner_witness:
  "files two_clips \<noteq> [] \<and> starts_are_prefix_sums (files two_clips) \<and>
   total_frames two_clips = sum_list (map frames (files two_clips)) \<and>
   (0::int) \<le> 3 \<and> 3 < total_frames two_clips \<and>
   global_to_file_local two_clips 3 = Inr (1, 0) \<and>
   global_to_file_local two_clips 4 = Inr (1, 1)"
  using global_to_file_local_owner [of two_clips 3] global_to_file_local_owner [of two_clips 4]
  by (simp add: two_clips_def starts_are_prefix_sums_def global_to_file_local_def clamp_def upt_rec)

text \<open>
  C3. The mapper first clamps its input with \<open>clamp\<close>; when \<open>total_frames\<close> is positive
  the clamped value is the index of \<open>[0, total_frames - 1]\<close> nearest to the input. The
  mapper's result is then the result of the scan at that index: the first clip, in list
  order, whose end lies beyond the index, with the offset into it (and the last frame of
  the last clip when no clip's end does). So the mapper's result for any input is its
  result for the nearest index in range.
\<close>

theorem out_of_range_clamps_to_nearest:
  assumes "0 < total_frames self"
  shows "clamp g 0 (max 0 (total_frames self - 1)) = nearest_in_range (total_frames self) g \<and>
         0 \<le> nearest_in_range (total_frames self) g \<and>
         nearest_in_range (total_frames self) g \<le> total_frames self - 1 \<and>
         scan_files (files self) 0 (nearest_in_range (total_frames self) g) =
           first_owner (files self) (nearest_in_range (total_frames self) g) \<and>
         global_to_file_local self g =
           global_to_file_local self (nearest_in_range (total_frames self) g) \<and>
         global_to_file_local self g =
           (case first_owner (files self) (nearest_in_range (total_frames self) g) of
              Some r \<Rightarrow> Inr r
            | None \<Rightarrow>
                (case py_index (files self) (int (length (files self)) - 1) of
                   Inl e \<Rightarrow> Inl e
                 | Inr f \<Rightarrow> Inr (int (length (files self)) - 1, max 0 (frames f - 1))))"
proof -
  from assms have n: "clamp g 0 (max 0 (total_frames self - 1)) = nearest_in_range (total_frames self) g"
    by (rule clamp_nearest)
  from assms have b: "0 \<le> nearest_in_range (total_frames self) g"
      "nearest_in_range (total_frames self) g \<le> total_frames self - 1"
    by (simp_all add: nearest_in_range_def)
  have i: "global_to_file_local self g =
        global_to_file_local self (clamp g 0 (max 0 (total_frames self - 1)))"
    unfolding global_to_file_local_def clamp_idem ..
  have r: "global_to_file_local self g =
           (case first_owner (files self) (nearest_in_range (total_frames self) g) of
              Some r \<Rightarrow> Inr r
            | None \<Rightarrow>
                (case py_index (files self) (int (length (files self)) - 1) of
                   Inl e \<Rightarrow> Inl e
                 | Inr f \<Rightarrow> Inr (int (length (files self)) - 1, max 0 (frames f - 1))))"
    unfolding global_to_file_local_def n scan_files_first_owner Let_def ..
  from i n have e: "global_to_file_local self g =
      global_to_file_local self (nearest_in_range (total_frames self) g)"
    by simp
  from n b e r scan_files_first_owner [of "files self" "nearest_in_range (total_frames self) g"]
  show ?thesis by (intro conjI)
qed

theorem out_of_range_clamps_to_nearest_witness:
  "0 < total_frames two_clips \<and>
   global_to_file_local two_clips 7 = Inr (1, 1) \<and>
   global_to_file_local two_clips 4 = Inr (1, 1) \<and>
   global_to_file_local two_clips (- 2) = Inr (0, 0) \<and>
   global_to_file_local two_clips 0 = Inr (0, 0)"
  using out_of_range_clamps_to_nearest [of two_clips 7]
    out_of_range_clamps_to_nearest [of two_clips 4]
    out_of_range_clamps_to_nearest [of two_clips "- 2"]
    out_of_range_clamps_to_nearest [of two_clips 0]
  by (simp add: two_clips_def nearest_in_range_def first_owner_def upt_rec)

text \<open>
  C10. On a non-empty clip table whose start frames are the sums of the earlier frame
  counts, with \<open>total_frames\<close> the sum of all frame counts and positive, the scan of
  \<open>_global_to_file_local\<close> returns from inside the loop for every input, so the fallback
  after the loop is never reached.
\<close>

theorem scan_returns_in_loop:
  assumes "files self \<noteq> []"
    and "starts_are_prefix_sums (files self)"
    and "total_frames self = sum_list (map frames (files self))"
    and "0 < total_frames self"
  shows "\<exists>r. scan_files (files self) 0 (clamp g 0 (max 0 (total_frames self - 1))) = Some r \<and>
           global_to_file_local self g = Inr r"
proof -
  let ?c = "clamp g 0 (max 0 (total_frames self - 1))"
  from assms(2) have c: "contiguous_from 0 (files self)" by (simp add: prefix_sums_iff)
  from assms(4) have r: "0 \<le> ?c" "?c < total_frames self" by (simp_all add: clamp_def)
  have "scan_files (files self) 0 ?c \<noteq> None"
  proof
    assume "scan_files (files self) 0 ?c = None"
    from scan_files_none [OF c r(1) this] assms(3) r(2) show False by simp
  qed
  then obtain x where "scan_files (files self) 0 ?c = Some x" by auto
  then show ?thesis by (simp add: global_to_file_local_def)
qed


theorem scan_returns_in_loop_witness:
  "files two_clips \<noteq> [] \<and> starts_are_prefix_sums (files two_clips) \<and>
   total_frames two_clips = sum_list (map frames (files two_clips)) \<and>
   0 < total_frames two_clips \<and>
   scan_files (files two_clips) 0 (clamp 9 0 (max 0 (total_frames two_clips - 1))) = Some (1, 1)"
  using scan_returns_in_loop [of two_clips 9]
  by (simp add: two_clips_def starts_are_prefix_sums_def clamp_def upt_rec)

section \<open>Loading a folder\<close>

lemma contiguous_from_snoc:
  "contiguous_from s (fs @ [f]) \<longleftrightarrow>
     contiguous_from s fs \<and> start_frame f = s + sum_list (map frames fs)"
  by (induction fs arbitrary: s) (auto simp: add.assoc)

lemma build_index_step:
  assumes "p_capture p = Some c"
  shows "\<exists>f secs2 st2.
           build_index (p # ps) acc t secs sf st =
             build_index ps (acc @ [f])
               (t + int_of_float (py_or (CAP_PROP_FRAME_COUNT c) 0)) secs2
               (sf + int_of_float (py_or (CAP_PROP_FRAME_COUNT c) 0)) st2 \<and>
           frames f = int_of_float (py_or (CAP_PROP_FRAME_COUNT c) 0) \<and> start_frame f = sf"
  unfolding build_index.simps assms option.case Let_def
  by (intro exI conjI, rule refl) simp_all

lemma build_index_table:
  "build_index ps acc t secs sf st = (fs, t', secs') \<Longrightarrow>
     contiguous_from 0 acc \<Longrightarrow> sf = sum_list (map frames acc) \<Longrightarrow> t = sum_list (map frames acc) \<Longrightarrow>
     contiguous_from 0 fs \<and> t' = sum_list (map frames fs)"
proof (induction ps arbitrary: acc t secs sf st)
  case Nil
  then show ?case by auto
next
  case (Cons p ps)
  show ?case
  proof (cases "p_capture p")
    case None
    with Cons.prems(1) have "build_index ps acc t secs sf st = (fs, t', secs')" by simp
    from Cons.IH [OF this Cons.prems(2,3,4)] show ?thesis .
  next
    case (Some c)
    let ?n = "int_of_float (py_or (CAP_PROP_FRAME_COUNT c) 0)"
    from build_index_step [OF Some, of ps acc t secs sf st] Cons.prems(1)
    obtain f secs2 st2
      where b: "build_index ps (acc @ [f]) (t + ?n) secs2 (sf + ?n) st2 = (fs, t', secs')"
        and f: "frames f = ?n" "start_frame f = sf"
      by auto
    from Cons.prems(2,3) f have c: "contiguous_from 0 (acc @ [f])"
      by (simp add: contiguous_from_snoc)
    from Cons.prems(3,4) f have s: "sf + ?n = sum_list (map frames (acc @ [f]))"
        "t + ?n = sum_list (map frames (acc @ [f]))"
      by simp_all
    from Cons.IH [OF b c s] show ?thesis .
  qed
qed

lemma build_index_unreadable:
  "list_all (\<lambda>p. p_capture p = None) ps \<Longrightarrow> build_index ps acc t secs sf st = (acc, t, secs)"
  by (induction ps) simp_all

lemma comprehension_Inr:
  "comprehension f xs = Inr ys \<Longrightarrow> list_all2 (\<lambda>x y. f x = Inr y) xs ys"
proof (induction xs arbitrary: ys)
  case Nil
  then show ?case by simp
next
  case (Cons x xs)
  from Cons.prems obtain y ys' where "f x = Inr y" "comprehension f xs = Inr ys'" "ys = y # ys'"
    by (cases "f x"; cases "comprehension f xs") simp_all
  with Cons.IH [of ys'] show ?case by simp
qed

lemma insert_by_key_set: "insert_by_key x ys = Inr zs \<Longrightarrow> set zs = insert x (set ys)"
proof (induction ys arbitrary: zs)
  case Nil
  then show ?case by auto
next
  case (Cons y ys)
  show ?case
  proof (cases "key_lt (fst y) (fst x)")
    case (Inl e)
    with Cons.prems show ?thesis by simp
  next
    case (Inr b)
    show ?thesis
    proof (cases b)
      case True
      with Inr Cons.prems obtain zs' where z: "insert_by_key x ys = Inr zs'" "zs = y # zs'"
        by (cases "insert_by_key x ys") simp_all
      from Cons.IH [OF z(1)] z(2) show ?thesis by auto
    next
      case False
      with Inr Cons.prems show ?thesis by auto
    qed
  qed
qed

lemma sort_pairs_set: "sort_pairs xs = Inr ys \<Longrightarrow> set ys = set xs"
proof (induction xs arbitrary: ys)
  case Nil
  then show ?case by simp
next
  case (Cons x xs)
  from Cons.prems obtain zs where z: "sort_pairs xs = Inr zs" "insert_by_key x zs = Inr ys"
    by (cases "sort_pairs xs") simp_all
  from Cons.IH [OF z(1)] insert_by_key_set [OF z(2)] show ?case by simp
qed

lemma py_sorted_set:
  assumes "py_sorted key xs = Inr ys"
  shows "set ys = set xs"
proof -
  from assms obtain kxs zs
    where k: "comprehension (\<lambda>x. case key x of Inl e \<Rightarrow> Inl e | Inr k \<Rightarrow> Inr (k, x)) xs = Inr kxs"
      and z: "sort_pairs kxs = Inr zs" and y: "ys = map snd zs"
    by (auto simp: py_sorted_def split: sum.splits)
  from comprehension_Inr [OF k] have "list_all2 (\<lambda>x y. snd y = x) xs kxs"
    by (rule list_all2_mono) (auto split: sum.splits)
  then have "map snd kxs = xs"
    by (induction rule: list_all2_induct) simp_all
  with sort_pairs_set [OF z] y show ?thesis
    by (metis set_map)
qed

lemma open_capture_fields:
  "open_capture_for_global_frame s g = Inr s' \<Longrightarrow>
     files s' = files s \<and> total_frames s' = total_frames s \<and> dialogs s' = dialogs s"
  by (auto simp: open_capture_for_global_frame_def open_capture_for_file_def
      split: sum.splits prod.splits if_splits)

text \<open>
  C4. Every folder load that succeeds (it returns without raising and shows no dialog, so
  the new table is installed) leaves a clip table that is contiguous and gapless: the
  first descriptor starts at frame 0, each later one at the start of the one before it
  plus that one's frame count, and \<open>total_frames\<close> is the sum of all frame counts (and
  not zero). The state before the load is arbitrary, so every reload establishes this anew.
\<close>

theorem load_folder_table_gapless:
  assumes "load_folder self folder = Inr self'" and "dialogs self' = dialogs self"
  shows "gapless (files self') \<and> total_frames self' = sum_list (map frames (files self')) \<and>
         total_frames self' \<noteq> 0"
proof -
  let ?paths = "filter is_mp4 folder"
  from assms have ne: "?paths \<noteq> []"
    by (auto simp: load_folder_def Let_def)
  with assms(1) obtain sp where sp: "py_sorted (\<lambda>p. natural_keys_viewer (p_name p)) ?paths = Inr sp"
    by (auto simp: load_folder_def Let_def split: sum.splits)
  obtain fs t secs where b: "build_index sp [] 0 0 0 0 = (fs, t, secs)"
    by (cases "build_index sp [] 0 0 0 0") auto
  from assms ne sp b have t: "t \<noteq> 0"
    by (auto simp: load_folder_def Let_def)
  with assms(1) ne sp b have
    "open_capture_for_global_frame
       (self\<lparr>cap := None, files := fs, total_frames := t, total_seconds := secs,
             cur_file_idx := - 1, cur_global_frame := 0\<rparr>) 0 = Inr self'"
    by (simp add: load_folder_def Let_def)
  from open_capture_fields [OF this] have f: "files self' = fs" "total_frames self' = t"
    by simp_all
  from build_index_table [OF b] have "contiguous_from 0 fs" "t = sum_list (map frames fs)"
    by simp_all
  with f t show ?thesis by (simp add: gapless_iff)
qed


theorem load_folder_table_gapless_witness:
  "load_folder init_player [clip10_entry, clip2_entry] = Inr loaded_two \<and>
   dialogs loaded_two = dialogs init_player \<and>
   gapless (files loaded_two) \<and>
   total_frames loaded_two = sum_list (map frames (files loaded_two)) \<and>
   total_frames loaded_two \<noteq> 0"
proof -
  have l: "load_folder init_player [clip10_entry, clip2_entry] = Inr loaded_two"
    by code_simp
  have d: "dialogs loaded_two = dialogs init_player"
    by (simp add: loaded_two_def init_player_def)
  from load_folder_table_gapless [OF l d] l d show ?thesis by simp
qed

text \<open>
  C7, as stated, fails: a folder with one clip that opens and one that does not loads
  without any dialog; the unreadable clip is skipped.
\<close>

theorem unreadable_clip_skipped_silently:
  "is_mp4 clip10_unreadable \<and> p_capture clip10_unreadable = None \<and>
   load_folder init_player [clip10_unreadable, clip2_entry] = Inr loaded_one \<and>
   dialogs loaded_one = []"
proof -
  have a: "is_mp4 clip10_unreadable" by code_simp
  have b: "p_capture clip10_unreadable = None" by (simp add: clip10_unreadable_def)
  have c: "load_folder init_player [clip10_unreadable, clip2_entry] = Inr loaded_one"
    by code_simp
  have d: "dialogs loaded_one = []" by (simp add: loaded_one_def)
  from a b c d show ?thesis by simp
qed

text \<open>
  C7, amended. When a folder load returns and every selected \<open>.mp4\<close> file fails to open,
  one error dialog is shown: ``No frames'' (or ``No videos'' when no file was selected at
  all). A clip that fails to open beside clips that provide frames is skipped.
\<close>

theorem all_unreadable_dialog:
  assumes "load_folder self folder = Inr self'"
    and "list_all (\<lambda>p. p_capture p = None) (filter is_mp4 folder)"
  shows "dialogs self' = dialogs self @
           [if filter is_mp4 folder = []
            then (''No videos'', ''No .mp4/.MP4 files found in that folder.'')
            else (''No frames'', ''Could not read frames from any file.'')]"
proof (cases "filter is_mp4 folder = []")
  case True
  with assms(1) show ?thesis by (auto simp: load_folder_def Let_def)
next
  case False
  with assms(1) obtain sp
    where sp: "py_sorted (\<lambda>p. natural_keys_viewer (p_name p)) (filter is_mp4 folder) = Inr sp"
    by (auto simp: load_folder_def Let_def split: sum.splits)
  from py_sorted_set [OF sp] assms(2) have "list_all (\<lambda>p. p_capture p = None) sp"
    by (simp add: list_all_iff)
  then have "build_index sp [] 0 0 0 0 = ([], 0, 0)" by (rule build_index_unreadable)
  with assms(1) False sp show ?thesis by (auto simp: load_folder_def Let_def)
qed


theorem all_unreadable_dialog_witness:
  "load_folder init_player [clip10_unreadable] =
     Inr (init_player\<lparr>dialogs := [(''No frames'', ''Could not read frames from any file.'')]\<rparr>) \<and>
   list_all (\<lambda>p. p_capture p = None) (filter is_mp4 [clip10_unreadable]) \<and>
   filter is_mp4 [clip10_unreadable] \<noteq> []"
proof -
  have l: "load_folder init_player [clip10_unreadable] =
     Inr (init_player\<lparr>dialogs := [(''No frames'', ''Could not read frames from any file.'')]\<rparr>)"
    by code_simp
  have m: "is_mp4 clip10_unreadable" by code_simp
  have u: "list_all (\<lambda>p. p_capture p = None) (filter is_mp4 [clip10_unreadable])"
    by (simp add: clip10_unreadable_def)
  from all_unreadable_dialog [OF l u] l m u show ?thesis by simp
qed

section \<open>The progress parser\<close>

lemma strip_newline:
  assumes "s \<noteq> []" and "\<not> is_space (hd s)" and "is_space c"
  shows "strip (s @ [c]) = strip s"
proof -
  from assms(1,2) have a: "dropWhile is_space (s @ [c]) = s @ [c]"
    by (simp add: dropWhile_eq_self_iff)
  from assms(1,2) have b: "dropWhile is_space s = s"
    by (simp add: dropWhile_eq_self_iff)
  show ?thesis unfolding strip_def a b using assms(3) by simp
qed

lemma out_time_ms_line:
  "strip (''out_time_ms='' @ decimal n) = ''out_time_ms='' @ decimal n"
  "startswith (''out_time_ms='' @ decimal n) ''out_time_ms=''"
  "out_time_ms_secs (''out_time_ms='' @ decimal n) = Some (real_of_int n / 1000000)"
proof -
  have o: "\<not> is_space CHR ''o''" by code_simp
  from decimal_ends [of n] have l: "\<not> is_space (last (''out_time_ms='' @ decimal n))"
    by (simp add: decimal_not_space)
  show "strip (''out_time_ms='' @ decimal n) = ''out_time_ms='' @ decimal n"
    using o l by (intro strip_id) simp_all
  show "startswith (''out_time_ms='' @ decimal n) ''out_time_ms=''"
    by (simp add: startswith_def)
  have sp: "split_once CHR ''='' (''out_time_ms='' @ decimal n) = [''out_time_ms'', decimal n]"
    by (simp add: split_once_def)
  from decimal_ends [of n] have st: "strip (decimal n) = decimal n"
    by (intro strip_id) (simp_all add: decimal_not_space)
  show "out_time_ms_secs (''out_time_ms='' @ decimal n) = Some (real_of_int n / 1000000)"
    unfolding out_time_ms_secs_def sp by (simp add: py_index_def st py_int_decimal)
qed

lemma handle_out_time_ms:
  "handle_line py_float (Some cb) log_callback (''out_time_ms='' @ decimal n) w =
     cb (real_of_int n / 1000000) w"
  using decimal_ends [of n]
  by (simp add: handle_line_def out_time_ms_line call_def del: append.simps)

lemma handle_out_time_ms_newline:
  "handle_line py_float (Some cb) log_callback ((''out_time_ms='' @ decimal n) @ [CHR 0x0A]) w =
     cb (real_of_int n / 1000000) w"
proof -
  have nl: "is_space (CHR 0x0A)" by code_simp
  have o: "\<not> is_space (hd (''out_time_ms='' @ decimal n))" "''out_time_ms='' @ decimal n \<noteq> []"
    by (simp_all add: is_space_def code_def)
  have "strip ((''out_time_ms='' @ decimal n) @ [CHR 0x0A]) = ''out_time_ms='' @ decimal n"
    using strip_newline [OF o(2) o(1) nl] out_time_ms_line(1) [of n] by simp
  then show ?thesis
    unfolding handle_line_def Let_def
    by (simp add: out_time_ms_line call_def del: append.simps)
qed

lemma dec_1500000: "decimal 1500000 = ''1500000''"
  by (simp add: decimal_def decimal_nat.simps char_of_def bit_iff_odd)

text \<open>
  C5. Reading the line \<open>out_time_ms=1500000\<close>, \<open>run_ffmpeg_concat\<close> calls
  \<open>progress_callback\<close> with 1.5; and for every integer \<open>n\<close> the line \<open>out_time_ms=\<close>
  followed by the decimal numeral of \<open>n\<close>, with or without its newline, makes the loop
  body call \<open>progress_callback\<close> with \<open>n / 1000000\<close>.
\<close>

theorem out_time_ms_reports_seconds:
  "snd (run_ffmpeg_concat py_float (Some progress_callback) log_callback
          [''out_time_ms=1500000''] returncode w) = progress_callback 1.5 w \<and>
   handle_line py_float (Some progress_callback) log_callback (''out_time_ms='' @ decimal n) w =
     progress_callback (real_of_int n / 1000000) w \<and>
   handle_line py_float (Some progress_callback) log_callback
     ((''out_time_ms='' @ decimal n) @ [CHR 0x0A]) w =
     progress_callback (real_of_int n / 1000000) w"
proof -
  have "handle_line py_float (Some progress_callback) log_callback
          (''out_time_ms='' @ decimal 1500000) w = progress_callback (real_of_int 1500000 / 1000000) w"
    by (rule handle_out_time_ms)
  then have "handle_line py_float (Some progress_callback) log_callback ''out_time_ms=1500000'' w =
      progress_callback 1.5 w"
    by (simp add: dec_1500000)
  then have "snd (run_ffmpeg_concat py_float (Some progress_callback) log_callback
          [''out_time_ms=1500000''] returncode w) = progress_callback 1.5 w"
    by (simp add: run_ffmpeg_concat_def)
  then show ?thesis
    by (intro conjI handle_out_time_ms handle_out_time_ms_newline)
qed



















text \<open>
  A clock with a minus sign loses it: \<open>int('-00')\<close> is 0, so the line
  \<open>out_time=-00:00:02.000000\<close> reports 2 seconds where \<open>out_time_ms=-2000000\<close> reports -2.
\<close>

lemma negative_out_time_sign_dropped:
  "fst (snd (run_ffmpeg_concat demo_float (Some record_secs) (Some record_line)
               [''out_time_ms=-2000000'', ''out_time=-00:00:02.000000''] 0 ([], []))) = [- 2, 2]"
  by code_simp




section \<open>Natural sort\<close>

lemma int_unsigned_Some_hd: "int_unsigned s = Some n \<Longrightarrow> s \<noteq> [] \<and> is_decimal (hd s)"
  by (cases s) (simp_all add: int_unsigned_def split: if_splits)

lemma py_int_has_decimal:
  assumes "py_int s = Some n"
  shows "\<exists>c \<in> set s. is_decimal c"
proof -
  obtain c cs where st: "strip s = c # cs"
    using assms by (cases "strip s") (simp_all add: py_int_def)
  have nd: "\<not> is_decimal CHR ''-''" "\<not> is_decimal CHR ''+''" by code_simp+
  have "\<exists>d \<in> set (c # cs). is_decimal d"
  proof (cases "c = CHR ''-'' \<or> c = CHR ''+''")
    case True
    with assms st obtain m where "int_unsigned cs = Some m"
      by (auto simp: py_int_def)
    from int_unsigned_Some_hd [OF this] show ?thesis
      by (cases cs) auto
  next
    case False
    with assms st have "int_unsigned (c # cs) = Some n"
      by (simp add: py_int_def)
    from int_unsigned_Some_hd [OF this] show ?thesis by auto
  qed
  with st set_strip [of s] show ?thesis by auto
qed

lemma atoi_no_decimal:
  assumes "list_all (\<lambda>c. \<not> is_decimal c) tok" and "atoi tok = Inr k"
  shows "\<exists>t. k = KStr t"
proof (cases "isdigit tok")
  case True
  with assms(2) obtain n where "py_int tok = Some n"
    by (cases "py_int tok") (simp_all add: atoi_def)
  from py_int_has_decimal [OF this] assms(1) show ?thesis
    by (auto simp: list_all_iff)
next
  case False
  with assms(2) show ?thesis by (auto simp: atoi_def)
qed

lemma int_digits_total:
  "list_all is_decimal ds \<Longrightarrow> \<exists>v. int_digits acc ds = Some v"
proof (induction ds arbitrary: acc)
  case Nil
  show ?case by simp
next
  case (Cons d ds)
  then show ?case by (cases ds) simp_all
qed

lemma py_int_digit_run:
  assumes "ds \<noteq> []" and "list_all is_decimal ds"
  shows "\<exists>v. py_int ds = Some v"
proof -
  from assms obtain d es where ds: "ds = d # es" "is_decimal d" "list_all is_decimal es"
    by (cases ds) auto
  from assms have l: "is_decimal (last ds)" by (simp add: list_all_iff)
  from assms(1) ds(1,2) l have st: "strip ds = ds"
    by (intro strip_id) (simp_all add: decimal_not_space)
  have nd: "\<not> is_decimal CHR ''-''" "\<not> is_decimal CHR ''+''" by code_simp+
  with ds(2) have "d \<noteq> CHR ''-''" "d \<noteq> CHR ''+''" by auto
  moreover from int_digits_total [OF ds(3)] obtain v where "int_digits (digit_value d) es = Some v"
    by blast
  ultimately show ?thesis
    unfolding py_int_def st using ds(1,2) by (simp add: int_unsigned_def)
qed

lemma atoi_digit_run:
  assumes "ds \<noteq> []" and "list_all is_decimal ds"
  shows "\<exists>v. atoi ds = Inr (KInt v)"
proof -
  from assms have "isdigit ds"
    by (auto simp: isdigit_def is_digit_char_def list_all_iff)
  with py_int_digit_run [OF assms] show ?thesis by (auto simp: atoi_def)
qed

lemma comprehension_Cons:
  "comprehension f (x # xs) = Inr ys \<Longrightarrow>
     \<exists>y ys'. f x = Inr y \<and> comprehension f xs = Inr ys' \<and> ys = y # ys'"
  by (cases "f x"; cases "comprehension f xs") simp_all

lemma natural_keys_alternates:
  "natural_keys s = Inr ks \<Longrightarrow> alternates ks"
proof (induction s arbitrary: ks rule: re_split_digits.induct)
  case (1 s)
  let ?a = "takeWhile (\<lambda>c. \<not> is_decimal c) s"
  let ?rest = "dropWhile (\<lambda>c. \<not> is_decimal c) s"
  have na: "list_all (\<lambda>c. \<not> is_decimal c) ?a"
    by (auto simp: list_all_iff dest: set_takeWhileD)
  show ?case
  proof (cases "?rest = []")
    case True
    then have "re_split_digits s = [?a]"
      by (subst re_split_digits.simps) (simp add: Let_def)
    with "1.prems" have "comprehension atoi [?a] = Inr ks"
      by (simp only: natural_keys_def)
    from comprehension_Cons [OF this] obtain k where "atoi ?a = Inr k" "ks = [k]"
      by auto
    with atoi_no_decimal [OF na] show ?thesis by auto
  next
    case False
    let ?d = "takeWhile is_decimal ?rest"
    let ?q = "dropWhile is_decimal ?rest"
    from False have sp: "re_split_digits s = ?a # ?d # re_split_digits ?q"
      by (subst re_split_digits.simps) (simp add: Let_def)
    from False have "is_decimal (hd ?rest)"
      using hd_dropWhile [of "\<lambda>c. \<not> is_decimal c" s] by simp
    with False have dne: "?d \<noteq> []" by (simp add: takeWhile_eq_Nil_iff)
    have dd: "list_all is_decimal ?d" by (auto simp: list_all_iff dest: set_takeWhileD)
    from "1.prems" sp have c1: "comprehension atoi (?a # ?d # re_split_digits ?q) = Inr ks"
      by (simp only: natural_keys_def)
    from comprehension_Cons [OF c1] obtain k1 ks1
      where k1: "atoi ?a = Inr k1" "comprehension atoi (?d # re_split_digits ?q) = Inr ks1"
        "ks = k1 # ks1"
      by blast
    from comprehension_Cons [OF k1(2)] obtain k2 kq
      where k2: "atoi ?d = Inr k2" "comprehension atoi (re_split_digits ?q) = Inr kq"
        "ks1 = k2 # kq"
      by blast
    from k1 k2 have k: "atoi ?a = Inr k1" "atoi ?d = Inr k2" "natural_keys ?q = Inr kq"
        "ks = k1 # k2 # kq"
      by (simp_all add: natural_keys_def)
    from atoi_no_decimal [OF na k(1)] obtain t where t: "k1 = KStr t" by blast
    from atoi_digit_run [OF dne dd] k(2) obtain v where v: "k2 = KInt v" by auto
    from "1.IH" [OF refl refl False k(3)] have "alternates kq" .
    with t v k(4) show ?thesis by simp
  qed
qed

lemma alternates_key_lt:
  "alternates a \<Longrightarrow> alternates b \<Longrightarrow> key_lt a b \<noteq> Inl e"
proof (induction a arbitrary: b rule: alternates.induct)
  case 1
  then show ?case by (cases b) simp_all
next
  case (2 s)
  then show ?case
    by (cases b rule: alternates.cases) simp_all
next
  case (3 s n rest)
  show ?case
  proof (cases b rule: alternates.cases)
    case (3 s' n' rest')
    with "3.prems" have "alternates rest" "alternates rest'" by simp_all
    from "3.IH" [OF this] 3 show ?thesis by simp
  qed (use "3.prems" in simp_all)
qed simp_all


lemma re_split_digit_run:
  assumes "list_all (\<lambda>c. \<not> is_decimal c) p" and "d \<noteq> []" and "list_all is_decimal d"
    and "no_leading_digit q"
  shows "re_split_digits (p @ d @ q) = p # d # re_split_digits q"
proof -
  from assms(2,3) have hd: "is_decimal (hd (d @ q))" by (cases d) auto
  from assms(2) have ne: "d @ q \<noteq> []" by simp
  from assms(1) have a: "takeWhile (\<lambda>c. \<not> is_decimal c) (p @ d @ q) = p"
    using hd ne by (simp add: list_all_iff takeWhile_eq_Nil_iff)
  from assms(1) have b: "dropWhile (\<lambda>c. \<not> is_decimal c) (p @ d @ q) = d @ q"
    using hd ne by (simp add: list_all_iff dropWhile_eq_self_iff)
  from assms(4) have q: "takeWhile is_decimal q = []" "dropWhile is_decimal q = q"
    by (cases q; simp)+
  from assms(3) have c: "takeWhile is_decimal (d @ q) = d" "dropWhile is_decimal (d @ q) = q"
    by (simp_all add: list_all_iff q)
  show ?thesis
    using assms(2) by (subst re_split_digits.simps) (simp add: Let_def a b c)
qed

lemma atoi_no_digits:
  assumes "list_all (\<lambda>c. \<not> is_digit_char c) p"
  shows "atoi p = Inr (KStr (lower p))"
proof -
  from assms have "\<not> isdigit p" by (cases p) (simp_all add: isdigit_def)
  then show ?thesis by (simp add: atoi_def)
qed

lemma atoi_decimal_nat: "atoi (decimal_nat m) = Inr (KInt (int m))"
proof -
  have "isdigit (decimal_nat m)"
    using decimal_nat_digits [of m] by (auto simp: isdigit_def is_digit_char_def list_all_iff)
  moreover have "py_int (decimal_nat m) = Some (int m)"
    using py_int_decimal [of "int m"] by (simp add: decimal_def)
  ultimately show ?thesis by (simp add: atoi_def)
qed

lemma natural_keys_digit_run:
  assumes "list_all (\<lambda>c. \<not> is_digit_char c) p" and "no_leading_digit q"
    and "natural_keys q = Inr kq"
  shows "natural_keys (p @ decimal_nat m @ q) = Inr (KStr (lower p) # KInt (int m) # kq)"
proof -
  from assms(1) have nd: "list_all (\<lambda>c. \<not> is_decimal c) p"
    by (auto simp: list_all_iff is_digit_char_def)
  from decimal_nat_digits [of m]
  have "re_split_digits (p @ decimal_nat m @ q) = p # decimal_nat m # re_split_digits q"
    by (intro re_split_digit_run nd assms(2)) simp_all
  with assms(3) show ?thesis
    by (simp add: natural_keys_def atoi_no_digits [OF assms(1)] atoi_decimal_nat)
qed

lemma no_superscripts_keys:
  "no_superscripts s \<Longrightarrow> \<exists>ks. natural_keys s = Inr ks"
proof (induction s rule: re_split_digits.induct)
  case (1 s)
  let ?a = "takeWhile (\<lambda>c. \<not> is_decimal c) s"
  let ?rest = "dropWhile (\<lambda>c. \<not> is_decimal c) s"
  from "1.prems" have "list_all (\<lambda>c. \<not> is_digit_char c) ?a"
    by (auto simp: no_superscripts_def list_all_iff dest: set_takeWhileD)
  then have a: "atoi ?a = Inr (KStr (lower ?a))" by (rule atoi_no_digits)
  show ?case
  proof (cases "?rest = []")
    case True
    then have "re_split_digits s = [?a]"
      by (subst re_split_digits.simps) (simp add: Let_def)
    with a show ?thesis by (simp add: natural_keys_def)
  next
    case False
    let ?d = "takeWhile is_decimal ?rest"
    let ?q = "dropWhile is_decimal ?rest"
    from False have sp: "re_split_digits s = ?a # ?d # re_split_digits ?q"
      by (subst re_split_digits.simps) (simp add: Let_def)
    from False have "is_decimal (hd ?rest)"
      using hd_dropWhile [of "\<lambda>c. \<not> is_decimal c" s] by simp
    with False have dne: "?d \<noteq> []" by (simp add: takeWhile_eq_Nil_iff)
    have dd: "list_all is_decimal ?d" by (auto simp: list_all_iff dest: set_takeWhileD)
    from atoi_digit_run [OF dne dd] obtain v where v: "atoi ?d = Inr (KInt v)" by blast
    from "1.prems" have "no_superscripts ?q"
      by (auto simp: no_superscripts_def list_all_iff dest!: set_dropWhileD)
    from "1.IH" [OF refl refl False this] obtain kq where "natural_keys ?q = Inr kq" by blast
    with sp a v show ?thesis by (simp add: natural_keys_def)
  qed
qed

lemma natural_keys_comparable:
  assumes "natural_keys a = Inr ka" and "natural_keys b = Inr kb"
  shows "alternates ka \<and> alternates kb \<and> key_lt ka kb \<noteq> Inl e"
  using assms by (simp add: natural_keys_alternates alternates_key_lt)

text \<open>
  C8. Sorting by \<open>natural_keys\<close> reads a run of digits as a number: of two names that
  differ only in one run, where the text before the run has no digit and the text after
  it does not start with one, the name with the smaller number is the smaller. So
  \<open>clip2\<close> comes strictly before \<open>clip10\<close>, although as plain strings \<open>clip10\<close> is the
  smaller. The player's \<open>natural_keys\<close> is the same function as the concatenator's, and
  the concatenator's folder scan is the player's sorted list of paths.
\<close>

theorem natural_sort_numeric:
  assumes "list_all (\<lambda>c. \<not> is_digit_char c) p" and "no_leading_digit q"
    and "natural_keys q = Inr kq" and "m < n"
  shows "name_lt natural_keys (p @ decimal_nat m @ q) (p @ decimal_nat n @ q) = Inr True \<and>
         name_lt natural_keys ''clip2'' ''clip10'' = Inr True \<and>
         name_lt natural_keys ''clip10'' ''clip2'' = Inr False \<and>
         str_lt ''clip10'' ''clip2'' \<and>
         natural_keys_viewer = natural_keys \<and>
         scan_folder folder =
           (case py_sorted (\<lambda>p. natural_keys_viewer (p_name p)) (filter is_mp4 folder) of
              Inl e \<Rightarrow> Inl e
            | Inr ps \<Rightarrow> Inr (map p_str ps))"
proof -
  from assms(4) have "KInt (int m) \<noteq> KInt (int n)" "int m < int n" by simp_all
  then have 1: "name_lt natural_keys (p @ decimal_nat m @ q) (p @ decimal_nat n @ q) = Inr True"
    by (simp add: name_lt_def natural_keys_digit_run [OF assms(1,2,3)])
  have 2: "name_lt natural_keys ''clip2'' ''clip10'' = Inr True" by code_simp
  have 3: "name_lt natural_keys ''clip10'' ''clip2'' = Inr False" by code_simp
  have 4: "str_lt ''clip10'' ''clip2''" by code_simp
  have 5: "natural_keys_viewer = natural_keys"
    by (rule ext) (simp add: natural_keys_viewer_def natural_keys_def)
  have 6: "scan_folder folder =
           (case py_sorted (\<lambda>p. natural_keys_viewer (p_name p)) (filter is_mp4 folder) of
              Inl e \<Rightarrow> Inl e
            | Inr ps \<Rightarrow> Inr (map p_str ps))"
    by (simp only: scan_folder_def 5)
  from 1 2 3 4 5 6 show ?thesis by (intro conjI)
qed

theorem natural_sort_numeric_witness:
  "list_all (\<lambda>c. \<not> is_digit_char c) ''clip'' \<and> no_leading_digit ''.mp4'' \<and>
   natural_keys ''.mp4'' = Inr [KStr ''.mp'', KInt 4, KStr ''''] \<and> (2::nat) < 10 \<and>
   name_lt natural_keys ''clip2.mp4'' ''clip10.mp4'' = Inr True \<and>
   scan_folder [clip10_entry, clip2_entry] = Inr [''/v/clip2.mp4'', ''/v/clip10.MP4'']"
proof -
  have a: "list_all (\<lambda>c. \<not> is_digit_char c) ''clip''" by code_simp
  have b: "no_leading_digit ''.mp4''" by code_simp
  have c: "natural_keys ''.mp4'' = Inr [KStr ''.mp'', KInt 4, KStr '''']" by code_simp
  have d: "(2::nat) < 10" by simp
  have e: "decimal_nat 2 = ''2''" "decimal_nat 10 = ''10''"
    by (simp_all add: decimal_nat.simps char_of_def bit_iff_odd)
  from natural_sort_numeric [OF a b c d]
  have "name_lt natural_keys (''clip'' @ decimal_nat 2 @ ''.mp4'')
          (''clip'' @ decimal_nat 10 @ ''.mp4'') = Inr True"
    by (rule conjunct1)
  then have f: "name_lt natural_keys ''clip2.mp4'' ''clip10.mp4'' = Inr True"
    by (simp add: e)
  have g: "scan_folder [clip10_entry, clip2_entry] = Inr [''/v/clip2.mp4'', ''/v/clip10.MP4'']"
    by code_simp
  from a b c d f g show ?thesis by (intro conjI)
qed

text \<open>
  C9 says that \<open>natural_keys\<close> gives an alternating key for every string, so that sorting
  never raises. For keys that are produced this holds (\<open>natural_keys_comparable\<close>), and
  every string without superscript digits has a key (\<open>no_superscripts_keys\<close>). But
  \<open>str.isdigit\<close> accepts the superscript digits, which \<open>\d\<close> does not split off and
  \<open>int\<close> rejects: on a file name that starts with a superscript two, \<open>natural_keys\<close>
  raises ValueError, and with it the folder scan of either tool.
\<close>

theorem natural_keys_superscript_raises:
  "natural_keys (CHR 0xB2 # ''1.mp4'') = Inl ValueError \<and>
   natural_keys_viewer (CHR 0xB2 # ''1.mp4'') = Inl ValueError \<and>
   is_mp4 squared_entry \<and>
   load_folder init_player [clip2_entry, squared_entry] = Inl ValueError \<and>
   scan_folder [clip2_entry, squared_entry] = Inl ValueError"
proof -
  have a: "natural_keys (CHR 0xB2 # ''1.mp4'') = Inl ValueError" by code_simp
  have b: "natural_keys_viewer (CHR 0xB2 # ''1.mp4'') = Inl ValueError" by code_simp
  have c: "is_mp4 squared_entry" by code_simp
  have d: "load_folder init_player [clip2_entry, squared_entry] = Inl ValueError" by code_simp
  have e: "scan_folder [clip2_entry, squared_entry] = Inl ValueError" by code_simp
  from a b c d e show ?thesis by (intro conjI)
qed

section \<open>The tempo chain\<close>

lemma atempo_below_bounded:
  "0 < f \<Longrightarrow> 1 / 2 \<le> f * 2 ^ n \<Longrightarrow>
     \<exists>k. atempo_below (Finite f) steps = Some (Finite (f * 2 ^ k), steps @ replicate k (Finite (1 / 2))) \<and>
         1 / 2 \<le> f * 2 ^ k \<and> (k = 0 \<or> f * 2 ^ k < 1)"
proof (induction n arbitrary: f steps)
  case 0
  then have "atempo_below (Finite f) steps = Some (Finite f, steps)"
    by (subst atempo_below.simps) simp
  with 0 show ?case by (intro exI [of _ 0]) simp
next
  case (Suc n)
  show ?case
  proof (cases "f < 1 / 2")
    case False
    then have "atempo_below (Finite f) steps = Some (Finite f, steps)"
      by (subst atempo_below.simps) simp
    with False show ?thesis by (intro exI [of _ 0]) simp
  next
    case True
    from Suc.prems have p: "0 < f * 2" "1 / 2 \<le> (f * 2) * 2 ^ n" by (simp_all add: mult.assoc)
    from Suc.IH [OF p, of "steps @ [Finite (1 / 2)]"] obtain k
      where k: "atempo_below (Finite (f * 2)) (steps @ [Finite (1 / 2)]) =
                  Some (Finite (f * 2 * 2 ^ k), (steps @ [Finite (1 / 2)]) @ replicate k (Finite (1 / 2)))"
        "1 / 2 \<le> f * 2 * 2 ^ k" "k = 0 \<or> f * 2 * 2 ^ k < 1"
      by blast
    from True have "atempo_below (Finite f) steps = atempo_below (Finite (f * 2)) (steps @ [Finite (1 / 2)])"
      by (subst atempo_below.simps) simp
    with k(1) have r: "atempo_below (Finite f) steps =
        Some (Finite (f * 2 ^ Suc k), steps @ replicate (Suc k) (Finite (1 / 2)))"
      by (simp add: mult.assoc replicate_append_same)
    from True k(3) have "f * 2 ^ Suc k < 1" by (auto simp: mult.assoc)
    with r k(2) show ?thesis by (intro exI [of _ "Suc k"]) (simp add: mult.assoc)
  qed
qed

lemma pow2_reaches: "0 < (f::real) \<Longrightarrow> \<exists>n. c \<le> f * 2 ^ n"
proof -
  assume f: "0 < f"
  obtain n where "c / f < 2 ^ n"
    using real_arch_pow [of 2 "c / f"] by auto
  with f have "c < f * 2 ^ n" by (simp add: divide_less_eq mult.commute)
  then show ?thesis by (intro exI [of _ n]) simp
qed

lemma atempo_below_returns:
  assumes "0 < f"
  shows "\<exists>k. atempo_below (Finite f) steps = Some (Finite (f * 2 ^ k), steps @ replicate k (Finite (1 / 2))) \<and>
           1 / 2 \<le> f * 2 ^ k \<and> (k = 0 \<or> f * 2 ^ k < 1)"
proof -
  from pow2_reaches [OF assms, of "1 / 2"] obtain n where "1 / 2 \<le> f * 2 ^ n" by blast
  from atempo_below_bounded [OF assms this] show ?thesis .
qed

lemma atempo_above_bounded:
  "0 < f \<Longrightarrow> f \<le> 2 * 2 ^ n \<Longrightarrow>
     \<exists>k. atempo_above (Finite f) steps = Some (Finite (f / 2 ^ k), steps @ replicate k (Finite 2)) \<and>
         f / 2 ^ k \<le> 2 \<and> (k = 0 \<or> 1 < f / 2 ^ k)"
proof (induction n arbitrary: f steps)
  case 0
  then have "atempo_above (Finite f) steps = Some (Finite f, steps)"
    by (subst atempo_above.simps) simp
  with 0 show ?case by (intro exI [of _ 0]) simp
next
  case (Suc n)
  show ?case
  proof (cases "2 < f")
    case False
    then have "atempo_above (Finite f) steps = Some (Finite f, steps)"
      by (subst atempo_above.simps) simp
    with False show ?thesis by (intro exI [of _ 0]) simp
  next
    case True
    from Suc.prems have p: "0 < f / 2" "f / 2 \<le> 2 * 2 ^ n" by simp_all
    from Suc.IH [OF p, of "steps @ [Finite 2]"] obtain k
      where k: "atempo_above (Finite (f / 2)) (steps @ [Finite 2]) =
                  Some (Finite (f / 2 / 2 ^ k), (steps @ [Finite 2]) @ replicate k (Finite 2))"
        "f / 2 / 2 ^ k \<le> 2" "k = 0 \<or> 1 < f / 2 / 2 ^ k"
      by blast
    from True have "atempo_above (Finite f) steps = atempo_above (Finite (f / 2)) (steps @ [Finite 2])"
      by (subst atempo_above.simps) simp
    with k(1) have r: "atempo_above (Finite f) steps =
        Some (Finite (f / 2 ^ Suc k), steps @ replicate (Suc k) (Finite 2))"
      by (simp add: replicate_append_same)
    from True k(3) have "1 < f / 2 ^ Suc k" by auto
    with r k(2) show ?thesis by (intro exI [of _ "Suc k"]) simp
  qed
qed

lemma atempo_above_returns:
  assumes "0 < f"
  shows "\<exists>k. atempo_above (Finite f) steps = Some (Finite (f / 2 ^ k), steps @ replicate k (Finite 2)) \<and>
           f / 2 ^ k \<le> 2 \<and> (k = 0 \<or> 1 < f / 2 ^ k)"
proof -
  obtain n where "f < 2 ^ n" using real_arch_pow [of 2 f] by auto
  then have "f \<le> 2 * 2 ^ n"
    by (smt (verit) zero_less_power)
  from atempo_above_bounded [OF assms this] show ?thesis .
qed


lemma prod_list_replicate_pow: "prod_list (replicate n (x::real)) = x ^ n"
  by (induction n) simp_all

lemma build_atempo_chain_finite:
  assumes "0 < ratio"
  shows "\<exists>steps. build_atempo_chain (Finite ratio) = Some (map Finite steps) \<and>
           list_all (\<lambda>s. 0.5 \<le> s \<and> s \<le> 2.0) steps \<and>
           \<bar>prod_list steps - ratio\<bar> \<le> 0.000001 * prod_list steps"
proof -
  from atempo_below_returns [OF assms, of "[]"] obtain a
    where a: "atempo_below (Finite ratio) [] =
                Some (Finite (ratio * 2 ^ a), replicate a (Finite (1 / 2)))"
      "1 / 2 \<le> ratio * 2 ^ a"
    by auto
  let ?f1 = "ratio * 2 ^ a"
  from assms have f1: "0 < ?f1" by simp
  from atempo_above_returns [OF f1, of "replicate a (Finite (1 / 2))"] obtain b
    where b: "atempo_above (Finite ?f1) (replicate a (Finite (1 / 2))) =
                Some (Finite (?f1 / 2 ^ b), replicate a (Finite (1 / 2)) @ replicate b (Finite 2))"
      "?f1 / 2 ^ b \<le> 2" "b = 0 \<or> 1 < ?f1 / 2 ^ b"
    by blast
  let ?f2 = "?f1 / 2 ^ b"
  let ?steps2 = "replicate a (1 / 2) @ replicate b (2::real)"
  let ?P = "prod_list ?steps2"
  let ?fsteps2 = "replicate a (Finite (1 / 2)) @ replicate b (Finite 2)"
  from a(2) b(3) have lo: "1 / 2 \<le> ?f2" by auto
  have P: "?P = (1 / 2) ^ a * 2 ^ b" by (simp add: prod_list_replicate_pow)
  then have Ppos: "0 < ?P" by simp
  have "?P * ?f2 = ((1 / 2) ^ a * 2 ^ a) * ratio * (2 ^ b / 2 ^ b)"
    unfolding P by (simp add: field_simps)
  also have "(1 / 2 :: real) ^ a * 2 ^ a = 1"
    by (simp add: power_one_over)
  finally have Pf: "?P * ?f2 = ratio" by simp
  have in_range: "list_all (\<lambda>s. 0.5 \<le> s \<and> s \<le> 2.0) ?steps2"
    by (auto simp: list_all_iff)
  from assms have pos: "\<not> float_le (Finite ratio) (Finite 0)"
    by (simp add: float_le_def)
  have chain: "build_atempo_chain (Finite ratio) =
      Some (if \<bar>?f2 - 1\<bar> > 0.000001 then ?fsteps2 @ [Finite ?f2] else ?fsteps2)"
    unfolding build_atempo_chain_def using pos by (simp add: a(1) b(1))
  show ?thesis
  proof (cases "\<bar>?f2 - 1\<bar> > 0.000001")
    case True
    with chain have "build_atempo_chain (Finite ratio) = Some (?fsteps2 @ [Finite ?f2])"
      by simp
    then have c: "build_atempo_chain (Finite ratio) = Some (map Finite (?steps2 @ [?f2]))"
      by simp
    have r: "list_all (\<lambda>s. 0.5 \<le> s \<and> s \<le> 2.0) (?steps2 @ [?f2])"
      using in_range lo b(2) by simp
    have e: "prod_list (?steps2 @ [?f2]) = ratio"
      using Pf by (simp only: prod_list.append prod_list.Cons prod_list.Nil mult_1_right)
    have "\<bar>prod_list (?steps2 @ [?f2]) - ratio\<bar> \<le> 0.000001 * prod_list (?steps2 @ [?f2])"
      unfolding e using assms by simp
    with c r show ?thesis by blast
  next
    case False
    with chain have "build_atempo_chain (Finite ratio) = Some ?fsteps2" by simp
    then have c: "build_atempo_chain (Finite ratio) = Some (map Finite ?steps2)" by simp
    have "?P - ratio = ?P * (1 - ?f2)"
      by (simp only: right_diff_distrib mult_1_right Pf)
    then have "\<bar>?P - ratio\<bar> = \<bar>?P\<bar> * \<bar>1 - ?f2\<bar>"
      by (simp only: abs_mult)
    also have "\<bar>?P\<bar> = ?P" using Ppos by (rule abs_of_pos)
    also from False have "\<bar>1 - ?f2\<bar> \<le> 0.000001"
      by (simp only: abs_minus_commute [of 1] not_less)
    then have "?P * \<bar>1 - ?f2\<bar> \<le> ?P * 0.000001"
      using Ppos by (intro mult_left_mono) simp_all
    finally have "\<bar>?P - ratio\<bar> \<le> 0.000001 * ?P" by (simp add: mult.commute)
    with c in_range show ?thesis by blast
  qed
qed

lemma atempo_above_Some_finite:
  assumes "atempo_above factor steps = Some r"
  shows "factor \<noteq> PosInf"
proof (rule atempo_above.raw_induct [where P = "\<lambda>factor steps r. factor \<noteq> PosInf", OF _ assms])
  fix above :: "pyfloat \<Rightarrow> pyfloat list \<Rightarrow> (pyfloat \<times> pyfloat list) option"
    and factor steps r
  assume ih: "\<And>factor steps r. above factor steps = Some r \<Longrightarrow> factor \<noteq> PosInf"
    and eq: "(if float_lt (Finite 2.0) factor
              then above (float_div factor 2.0) (steps @ [Finite 2.0])
              else Some (factor, steps)) = Some r"
  show "factor \<noteq> PosInf"
  proof
    assume "factor = PosInf"
    with eq have "above PosInf (steps @ [Finite 2.0]) = Some r" by simp
    from ih [OF this] show False by simp
  qed
qed

lemma atempo_above_inf: "atempo_above PosInf steps = None"
  using atempo_above_Some_finite [of PosInf steps] by (cases "atempo_above PosInf steps") auto


text \<open>
  C2 says that \<open>_build_atempo_chain\<close> returns a bounded chain for every positive ratio.
  For every finite positive ratio it does (\<open>build_atempo_chain_finite\<close>: the loops end,
  every factor lies in \<open>[0.5, 2.0]\<close> and the product is the ratio up to the relative
  tolerance \<open>10\<^sup>-\<^sup>6\<close>). But positive infinity is a positive ratio too, the one that
  \<open>60 / user_fps\<close> gives for a frame rate near \<open>1e-307\<close>; halving it gives infinity again,
  so the second loop never ends and nothing is returned.
\<close>

theorem build_atempo_chain_hangs_on_inf:
  "float_lt (Finite 0) PosInf \<and> float_div PosInf 2.0 = PosInf \<and>
   build_atempo_chain PosInf = None"
proof -
  have "atempo_below PosInf [] = Some (PosInf, [])"
    by (subst atempo_below.simps) simp
  then have "build_atempo_chain PosInf = None"
    by (simp add: build_atempo_chain_def float_le_def atempo_above_inf)
  then show ?thesis by simp
qed

text \<open>The chain for three finite ratios and for NaN.\<close>

lemma build_atempo_chain_examples:
  "build_atempo_chain (Finite 3) = Some [Finite 2, Finite (3 / 2)]"
  "build_atempo_chain (Finite 0.2) = Some [Finite 0.5, Finite 0.5, Finite 0.8]"
  "build_atempo_chain (Finite 1) = Some []"
  "build_atempo_chain NaN = Some []"
  by (simp_all add: build_atempo_chain_def float_le_def atempo_below.simps atempo_above.simps)

end
